theory Spec2Isabelle
  imports Main "HOL-Library.Signed_Division" "HOL-Library.Monad_Syntax"
begin

unbundle bit_operations_syntax

section \<open>The van Emde Boas node of \<^verbatim>\<open>vEBTree.c\<close>\<close>

text \<open>
  A node owns its summary and its clusters exclusively (no pointer is shared), so the
  heap structure is a tree and is modelled as a datatype. The pointer \<^verbatim>\<open>summary\<close> is
  \<open>None\<close> when it is \<^verbatim>\<open>NULL\<close>; the array \<^verbatim>\<open>cluster\<close> is the list of the nodes it points
  to, and \<open>[]\<close> when it is \<^verbatim>\<open>NULL\<close>. The fields keep the order of the C struct.
  C \<^verbatim>\<open>int\<close> is modelled by \<open>int\<close>: every value the code computes from a node made by
  \<^verbatim>\<open>vEB_create\<close> lies between \<open>-1\<close> and the universe size, so no operation wraps
  (\<open>wf_range\<close> and \<open>wf_exec\<close> below). A C universe size is at most \<open>2 ^ 30\<close>; the model
  has no such bound.
\<close>

datatype vEBNode = vEBNode
  (u_of: int) (min_of: int) (max_of: int)
  (summary_of: "vEBNode option") (cluster_of: "vEBNode list")
  (lower_sqrt_of: int) (upper_sqrt_of: int)

text \<open>Assignments to single fields of a node.\<close>

definition set_min :: "vEBNode \<Rightarrow> int \<Rightarrow> vEBNode" where
  "set_min V x = vEBNode (u_of V) x (max_of V) (summary_of V) (cluster_of V)
     (lower_sqrt_of V) (upper_sqrt_of V)"

definition set_max :: "vEBNode \<Rightarrow> int \<Rightarrow> vEBNode" where
  "set_max V x = vEBNode (u_of V) (min_of V) x (summary_of V) (cluster_of V)
     (lower_sqrt_of V) (upper_sqrt_of V)"

definition set_summary :: "vEBNode \<Rightarrow> vEBNode \<Rightarrow> vEBNode" where
  "set_summary V s = vEBNode (u_of V) (min_of V) (max_of V) (Some s) (cluster_of V)
     (lower_sqrt_of V) (upper_sqrt_of V)"

definition set_cluster :: "vEBNode \<Rightarrow> int \<Rightarrow> vEBNode \<Rightarrow> vEBNode" where
  "set_cluster V i c = vEBNode (u_of V) (min_of V) (max_of V) (summary_of V)
     ((cluster_of V)[nat i := c]) (lower_sqrt_of V) (upper_sqrt_of V)"

text \<open>
  Reading \<^verbatim>\<open>V->cluster[i]\<close>: an index outside the array is undefined behaviour in C,
  here the result \<open>None\<close>, which every operation propagates.
\<close>

definition cluster_at :: "vEBNode \<Rightarrow> int \<Rightarrow> vEBNode option" where
  "cluster_at V i =
     (if 0 \<le> i \<and> i < int (length (cluster_of V)) then Some (cluster_of V ! nat i) else None)"

text \<open>
  \<^verbatim>\<open>high\<close>, \<^verbatim>\<open>low\<close> and \<^verbatim>\<open>idx\<close>. C division truncates towards zero (\<open>sdiv\<close>, \<open>smod\<close>);
  dividing by zero is undefined (\<open>None\<close>).
\<close>

definition high :: "vEBNode \<Rightarrow> int \<Rightarrow> int option" where
  "high V x = (if lower_sqrt_of V = 0 then None else Some (x sdiv lower_sqrt_of V))"

definition low :: "vEBNode \<Rightarrow> int \<Rightarrow> int option" where
  "low V x = (if lower_sqrt_of V = 0 then None else Some (x smod lower_sqrt_of V))"

definition idx :: "vEBNode \<Rightarrow> int \<Rightarrow> int \<Rightarrow> int" where
  "idx V h l = h * lower_sqrt_of V + l"

definition vEB_min :: "vEBNode \<Rightarrow> int" where
  "vEB_min V = min_of V"

definition vEB_max :: "vEBNode \<Rightarrow> int" where
  "vEB_max V = max_of V"

subsection \<open>Construction\<close>

text \<open>
  \<^verbatim>\<open>log2_int\<close> is \<^verbatim>\<open>(int)round(log2(x))\<close>. \<^verbatim>\<open>vEB_create\<close> calls it on powers of two
  only, where the rounded logarithm is the exponent; the model counts the halvings.
\<close>

function log2_int :: "int \<Rightarrow> int" where
  "log2_int x = (if x \<le> 1 then 0 else 1 + log2_int (x div 2))"
  by pat_completeness auto
termination
  by (relation "measure nat") auto

declare log2_int.simps [simp del]

lemma log2_int_nonneg: "0 \<le> log2_int x"
  by (induction x rule: log2_int.induct) (subst log2_int.simps, simp)

lemma log2_int_le: "1 \<le> x \<Longrightarrow> 2 ^ nat (log2_int x) \<le> x"
proof (induction x rule: log2_int.induct)
  case (1 x)
  show ?case
  proof (cases "x \<le> 1")
    case True
    with "1.prems" show ?thesis by (subst log2_int.simps) simp
  next
    case False
    then have "2 ^ nat (log2_int (x div 2)) \<le> x div 2"
      using "1.IH" by simp
    then have "2 * 2 ^ nat (log2_int (x div 2)) \<le> x" by linarith
    with False show ?thesis
      using log2_int_nonneg [of "x div 2"]
      by (subst log2_int.simps) (simp add: nat_add_distrib)
  qed
qed

lemma log2_int_ge2: "4 \<le> x \<Longrightarrow> 2 \<le> log2_int x"
proof -
  assume x: "4 \<le> x"
  then have "2 \<le> x div 2" by linarith
  then have "1 \<le> log2_int (x div 2)"
    using log2_int_nonneg [of "x div 2 div 2"] by (subst log2_int.simps) simp
  with x show ?thesis by (subst log2_int.simps) simp
qed

lemma create_sqrt_less:
  assumes "2 < U"
  shows "(2::int) ^ nat (log2_int U div 2) < U"
    and "(2::int) ^ nat (log2_int U - log2_int U div 2) < U"
proof -
  let ?lg = "log2_int U"
  have U4: "3 \<le> U" using assms by simp
  have lg1: "1 \<le> ?lg"
    using assms log2_int_nonneg [of "U div 2"] by (subst log2_int.simps) simp
  have le: "2 ^ nat ?lg \<le> U" using assms by (intro log2_int_le) simp
  show "(2::int) ^ nat (?lg div 2) < U"
  proof -
    have "nat (?lg div 2) < nat ?lg" using lg1 by linarith
    then have "(2::int) ^ nat (?lg div 2) < 2 ^ nat ?lg"
      by (intro power_strict_increasing) simp_all
    then show ?thesis using le by (rule order.strict_trans2)
  qed
  show "(2::int) ^ nat (?lg - ?lg div 2) < U"
  proof (cases "?lg = 1")
    case True
    then show ?thesis using U4 by simp
  next
    case False
    then have "nat (?lg - ?lg div 2) < nat ?lg" using lg1 by linarith
    then have "(2::int) ^ nat (?lg - ?lg div 2) < 2 ^ nat ?lg"
      by (intro power_strict_increasing) simp_all
    then show ?thesis using le by (rule order.strict_trans2)
  qed
qed

text \<open>
  \<^verbatim>\<open>vEB_create\<close>: \<^verbatim>\<open>exit(EXIT_FAILURE)\<close> is the result \<open>None\<close>. The loop that fills the
  cluster array calls \<^verbatim>\<open>vEB_create(V->lower_sqrt)\<close> once for every index.
\<close>

function vEB_create :: "int \<Rightarrow> vEBNode option" where
  "vEB_create U =
     (if U < 2 then None
      else if U AND (U - 1) \<noteq> 0 then None
      else if U \<le> 2 then Some (vEBNode U (-1) (-1) None [] 0 0)
      else
        let lg = log2_int U;
            half = lg div 2;
            lower_sqrt = push_bit (nat half) 1;
            upper_sqrt = push_bit (nat (lg - half)) 1
        in do {
          summary \<leftarrow> vEB_create upper_sqrt;
          cluster \<leftarrow> those (map (\<lambda>i. vEB_create lower_sqrt) [0..<nat upper_sqrt]);
          Some (vEBNode U (-1) (-1) (Some summary) cluster lower_sqrt upper_sqrt)
        })"
  by pat_completeness auto
termination
  by (relation "measure nat") (auto simp: create_sqrt_less)

declare vEB_create.simps [simp del]

subsection \<open>Member and insert\<close>

definition vEB_empty_insert :: "vEBNode \<Rightarrow> int \<Rightarrow> vEBNode" where
  "vEB_empty_insert V x = set_max (set_min V x) x"

lemma size_set [simp]:
  "size (set_min V x) = size V" "size (set_max V x) = size V"
  by (cases V; simp add: set_min_def set_max_def)+

lemma cluster_at_size: "cluster_at V i = Some c \<Longrightarrow> size c < size V"
proof -
  assume a: "cluster_at V i = Some c"
  then have "c \<in> set (cluster_of V)"
    by (auto simp: cluster_at_def split: if_splits)
  then have "size c \<le> size_list size (cluster_of V)"
    by (simp add: size_list_estimation')
  then show ?thesis by (cases V) simp
qed

lemma summary_size: "summary_of V = Some s \<Longrightarrow> size s < size V"
  by (cases V) simp

lemma cluster_mem_size: "c \<in> set (cluster_of V) \<Longrightarrow> size c < size V"
proof -
  assume "c \<in> set (cluster_of V)"
  then have "size c \<le> size_list size (cluster_of V)"
    by (simp add: size_list_estimation')
  then show ?thesis by (cases V) simp
qed

lemma fields_set [simp]:
  "u_of (set_min V x) = u_of V" "u_of (set_max V x) = u_of V"
  "u_of (set_summary V s) = u_of V" "u_of (set_cluster V i c) = u_of V"
  "min_of (set_min V x) = x" "min_of (set_max V x) = min_of V"
  "min_of (set_summary V s) = min_of V" "min_of (set_cluster V i c) = min_of V"
  "max_of (set_min V x) = max_of V" "max_of (set_max V x) = x"
  "max_of (set_summary V s) = max_of V" "max_of (set_cluster V i c) = max_of V"
  "summary_of (set_min V x) = summary_of V" "summary_of (set_max V x) = summary_of V"
  "summary_of (set_summary V s) = Some s" "summary_of (set_cluster V i c) = summary_of V"
  "cluster_of (set_min V x) = cluster_of V" "cluster_of (set_max V x) = cluster_of V"
  "cluster_of (set_summary V s) = cluster_of V"
  "cluster_of (set_cluster V i c) = (cluster_of V)[nat i := c]"
  "lower_sqrt_of (set_min V x) = lower_sqrt_of V" "lower_sqrt_of (set_max V x) = lower_sqrt_of V"
  "lower_sqrt_of (set_summary V s) = lower_sqrt_of V"
  "lower_sqrt_of (set_cluster V i c) = lower_sqrt_of V"
  "upper_sqrt_of (set_min V x) = upper_sqrt_of V" "upper_sqrt_of (set_max V x) = upper_sqrt_of V"
  "upper_sqrt_of (set_summary V s) = upper_sqrt_of V"
  "upper_sqrt_of (set_cluster V i c) = upper_sqrt_of V"
  by (simp_all add: set_min_def set_max_def set_summary_def set_cluster_def)

text \<open>
  \<^verbatim>\<open>vEB_member\<close>; the C result \<^verbatim>\<open>1\<close>/\<^verbatim>\<open>0\<close> is \<open>True\<close>/\<open>False\<close>. The test \<^verbatim>\<open>if (!V)\<close> never
  fires: \<^verbatim>\<open>vEB_create\<close> leaves no entry of a cluster array \<^verbatim>\<open>NULL\<close>.
\<close>

function vEB_member :: "vEBNode \<Rightarrow> int \<Rightarrow> bool option" where
  "vEB_member V x =
     (if x = min_of V \<or> x = max_of V then Some True
      else if u_of V \<le> 2 then Some False
      else do {
        h \<leftarrow> high V x;
        l \<leftarrow> low V x;
        c \<leftarrow> cluster_at V h;
        vEB_member c l
      })"
  by pat_completeness auto
termination
  by (relation "measure (\<lambda>(V, x). size V)") (auto simp: cluster_at_size)

declare vEB_member.simps [simp del]

text \<open>
  \<^verbatim>\<open>vEB_insert\<close> and \<^verbatim>\<open>vEB_delete\<close> return the node after the call together with a
  status: \<open>OutOfRange\<close> when the error message is printed, \<open>OK\<close> otherwise.
\<close>

datatype status = OK | OutOfRange

function vEB_insert :: "vEBNode \<Rightarrow> int \<Rightarrow> (status \<times> vEBNode) option" where
  "vEB_insert V x =
     (if x < 0 \<or> x \<ge> u_of V then Some (OutOfRange, V)
      else case vEB_member V x of
        None \<Rightarrow> None
      | Some True \<Rightarrow> Some (OK, V)
      | Some False \<Rightarrow>
          if min_of V = -1 then Some (OK, vEB_empty_insert V x)
          else
            let (x1, V1) = (if x < min_of V then (min_of V, set_min V x) else (x, V))
            in do {
              V2 \<leftarrow>
                (if u_of V1 > 2 then do {
                   h \<leftarrow> high V1 x1;
                   l \<leftarrow> low V1 x1;
                   c \<leftarrow> cluster_at V1 h;
                   if min_of c = -1 then do {
                     s \<leftarrow> summary_of V1;
                     (_, s') \<leftarrow> vEB_insert s h;
                     Some (set_cluster (set_summary V1 s') h (vEB_empty_insert c l))
                   }
                   else do {
                     (_, c') \<leftarrow> vEB_insert c l;
                     Some (set_cluster V1 h c')
                   }
                 }
                 else Some V1);
              Some (OK, if x1 > max_of V2 then set_max V2 x1 else V2)
            })"
  by pat_completeness auto
termination
  by (relation "measure (\<lambda>(V, x). size V)")
     (auto simp: cluster_at_size summary_size split: if_splits dest!: cluster_at_size summary_size)

declare vEB_insert.simps [simp del]

subsection \<open>Successor and predecessor\<close>

function vEB_successor :: "vEBNode \<Rightarrow> int \<Rightarrow> int option" where
  "vEB_successor V x =
     (if u_of V \<le> 2 then (if x = 0 \<and> max_of V = 1 then Some 1 else Some (-1))
      else if min_of V \<noteq> -1 \<and> x < min_of V then Some (min_of V)
      else do {
        h \<leftarrow> high V x;
        l \<leftarrow> low V x;
        c \<leftarrow> cluster_at V h;
        let max_low = vEB_max c;
        if max_low \<noteq> -1 \<and> l < max_low then do {
          off \<leftarrow> vEB_successor c l;
          Some (idx V h off)
        }
        else do {
          s \<leftarrow> summary_of V;
          succ_c \<leftarrow> vEB_successor s h;
          if succ_c = -1 then Some (-1)
          else do {
            c' \<leftarrow> cluster_at V succ_c;
            Some (idx V succ_c (vEB_min c'))
          }
        }
      })"
  by pat_completeness auto
termination
  by (relation "measure (\<lambda>(V, x). size V)") (auto simp: cluster_at_size summary_size)

declare vEB_successor.simps [simp del]

function vEB_predecessor :: "vEBNode \<Rightarrow> int \<Rightarrow> int option" where
  "vEB_predecessor V x =
     (if u_of V \<le> 2 then (if x = 1 \<and> min_of V = 0 then Some 0 else Some (-1))
      else if max_of V \<noteq> -1 \<and> x > max_of V then Some (max_of V)
      else do {
        h \<leftarrow> high V x;
        l \<leftarrow> low V x;
        c \<leftarrow> cluster_at V h;
        let min_low = vEB_min c;
        if min_low \<noteq> -1 \<and> l > min_low then do {
          off \<leftarrow> vEB_predecessor c l;
          Some (idx V h off)
        }
        else do {
          s \<leftarrow> summary_of V;
          pred_c \<leftarrow> vEB_predecessor s h;
          if pred_c = -1 then
            (if min_of V \<noteq> -1 \<and> x > min_of V then Some (min_of V) else Some (-1))
          else do {
            c' \<leftarrow> cluster_at V pred_c;
            Some (idx V pred_c (vEB_max c'))
          }
        }
      })"
  by pat_completeness auto
termination
  by (relation "measure (\<lambda>(V, x). size V)") (auto simp: cluster_at_size summary_size)

declare vEB_predecessor.simps [simp del]

subsection \<open>Delete\<close>

function vEB_delete :: "vEBNode \<Rightarrow> int \<Rightarrow> (status \<times> vEBNode) option" where
  "vEB_delete V x =
     (if x < 0 \<or> x \<ge> u_of V then Some (OutOfRange, V)
      else if min_of V = max_of V then Some (OK, set_max (set_min V (-1)) (-1))
      else if u_of V = 2 then
        (let m = (if x = 0 then 1 else 0) in Some (OK, set_max (set_min V m) m))
      else do {
        (x1, V1) \<leftarrow>
          (if x = min_of V then do {
             s \<leftarrow> summary_of V;
             let first = vEB_min s;
             cf \<leftarrow> cluster_at V first;
             let off = vEB_min cf;
             let x' = idx V first off;
             Some (x', set_min V x')
           }
           else Some (x, V));
        h \<leftarrow> high V1 x1;
        l \<leftarrow> low V1 x1;
        c \<leftarrow> cluster_at V1 h;
        (_, c') \<leftarrow> vEB_delete c l;
        let V2 = set_cluster V1 h c';
        if vEB_min c' = -1 then do {
          s \<leftarrow> summary_of V2;
          (_, s') \<leftarrow> vEB_delete s h;
          let V3 = set_summary V2 s';
          if x1 = max_of V3 then
            (let smax = vEB_max s' in
             if smax = -1 then Some (OK, set_max V3 (min_of V3))
             else do {
               cm \<leftarrow> cluster_at V3 smax;
               Some (OK, set_max V3 (idx V3 smax (vEB_max cm)))
             })
          else Some (OK, V3)
        }
        else if x1 = max_of V2 then Some (OK, set_max V2 (idx V2 h (vEB_max c')))
        else Some (OK, V2)
      })"
  by pat_completeness auto
termination
  by (relation "measure (\<lambda>(V, x). size V)")
     (auto simp: Let_def split: if_splits bind_splits dest!: cluster_at_size summary_size)

declare vEB_delete.simps [simp del]

subsection \<open>Callers\<close>

text \<open>
  The callers of the repository create a tree and then call \<^verbatim>\<open>vEB_insert\<close> and
  \<^verbatim>\<open>vEB_delete\<close> on it. A caller is a list of such calls; running it gives the tree it
  leaves, or \<open>None\<close> when a call has undefined behaviour.
\<close>

datatype op = Insert int | Delete int

fun apply_op :: "vEBNode \<Rightarrow> op \<Rightarrow> vEBNode option" where
  "apply_op V (Insert x) = map_option snd (vEB_insert V x)"
| "apply_op V (Delete x) = map_option snd (vEB_delete V x)"

fun run :: "vEBNode \<Rightarrow> op list \<Rightarrow> vEBNode option" where
  "run V [] = Some V"
| "run V (c # cs) = (case apply_op V c of None \<Rightarrow> None | Some V' \<Rightarrow> run V' cs)"

definition exec :: "int \<Rightarrow> op list \<Rightarrow> vEBNode option" where
  "exec U cs = (case vEB_create U of None \<Rightarrow> None | Some V \<Rightarrow> run V cs)"

definition member_after :: "int \<Rightarrow> op list \<Rightarrow> int \<Rightarrow> bool option" where
  "member_after U cs x = (case exec U cs of None \<Rightarrow> None | Some V \<Rightarrow> vEB_member V x)"

definition successor_after :: "int \<Rightarrow> op list \<Rightarrow> int \<Rightarrow> int option" where
  "successor_after U cs x = (case exec U cs of None \<Rightarrow> None | Some V \<Rightarrow> vEB_successor V x)"

definition predecessor_after :: "int \<Rightarrow> op list \<Rightarrow> int \<Rightarrow> int option" where
  "predecessor_after U cs x = (case exec U cs of None \<Rightarrow> None | Some V \<Rightarrow> vEB_predecessor V x)"

text \<open>What a caller observes of the tree it leaves.\<close>

definition min_max_after :: "int \<Rightarrow> op list \<Rightarrow> (int \<times> int) option" where
  "min_max_after U cs = (case exec U cs of None \<Rightarrow> None | Some V \<Rightarrow> Some (min_of V, max_of V))"

definition summary_member_after :: "int \<Rightarrow> op list \<Rightarrow> int \<Rightarrow> bool option" where
  "summary_member_after U cs i =
     (case exec U cs of None \<Rightarrow> None
      | Some V \<Rightarrow> (case summary_of V of None \<Rightarrow> None | Some s \<Rightarrow> vEB_member s i))"

definition cluster_min_after :: "int \<Rightarrow> op list \<Rightarrow> int \<Rightarrow> int option" where
  "cluster_min_after U cs i =
     (case exec U cs of None \<Rightarrow> None
      | Some V \<Rightarrow> (case cluster_at V i of None \<Rightarrow> None | Some c \<Rightarrow> Some (min_of c)))"

definition cluster_member_after :: "int \<Rightarrow> op list \<Rightarrow> int \<Rightarrow> int \<Rightarrow> bool option" where
  "cluster_member_after U cs i l =
     (case exec U cs of None \<Rightarrow> None
      | Some V \<Rightarrow> (case cluster_at V i of None \<Rightarrow> None | Some c \<Rightarrow> vEB_member c l))"

text \<open>
  A caller that deletes stored values only: whenever it calls \<^verbatim>\<open>vEB_delete\<close> with a value
  of the universe, \<^verbatim>\<open>vEB_member\<close> reports that value as stored at that moment.
\<close>

fun members_only :: "vEBNode \<Rightarrow> op list \<Rightarrow> bool" where
  "members_only V [] = True"
| "members_only V (Insert x # cs) =
     (case vEB_insert V x of None \<Rightarrow> True | Some (_, V') \<Rightarrow> members_only V' cs)"
| "members_only V (Delete x # cs) =
     ((x < 0 \<or> u_of V \<le> x \<or> vEB_member V x = Some True) \<and>
      (case vEB_delete V x of None \<Rightarrow> True | Some (_, V') \<Rightarrow> members_only V' cs))"

definition careful :: "int \<Rightarrow> op list \<Rightarrow> bool" where
  "careful U cs = (case vEB_create U of None \<Rightarrow> True | Some V \<Rightarrow> members_only V cs)"

subsection \<open>All nodes of a tree\<close>

function nodes :: "vEBNode \<Rightarrow> vEBNode list" where
  "nodes V = V # (case summary_of V of None \<Rightarrow> [] | Some s \<Rightarrow> nodes s) @
     concat (map nodes (cluster_of V))"
  by pat_completeness auto
termination
  by (relation "measure size") (auto simp: summary_size cluster_mem_size)

declare nodes.simps [simp del]

text \<open>The values that \<^verbatim>\<open>vEB_member\<close> reports as stored in a node.\<close>

definition stored :: "vEBNode \<Rightarrow> int set" where
  "stored V = {x. 0 \<le> x \<and> x < u_of V \<and> vEB_member V x = Some True}"

section \<open>Invariants\<close>

function well_formed :: "vEBNode \<Rightarrow> bool" where
  "well_formed V \<longleftrightarrow>
     -1 \<le> min_of V \<and> min_of V < u_of V \<and> -1 \<le> max_of V \<and> max_of V < u_of V \<and>
     (if u_of V \<le> 2 then
        u_of V = 2 \<and> summary_of V = None \<and> cluster_of V = [] \<and>
        lower_sqrt_of V = 0 \<and> upper_sqrt_of V = 0
      else
        2 \<le> lower_sqrt_of V \<and> 2 \<le> upper_sqrt_of V \<and>
        lower_sqrt_of V * upper_sqrt_of V = u_of V \<and>
        int (length (cluster_of V)) = upper_sqrt_of V \<and>
        (case summary_of V of None \<Rightarrow> False
         | Some s \<Rightarrow> u_of s = upper_sqrt_of V \<and> well_formed s) \<and>
        (\<forall>c \<in> set (cluster_of V). u_of c = lower_sqrt_of V \<and> well_formed c))"
  by pat_completeness auto
termination
  by (relation "measure size") (auto simp: summary_size cluster_mem_size)

declare well_formed.simps [simp del]

definition least_of :: "int set \<Rightarrow> int \<Rightarrow> bool" where
  "least_of S m \<longleftrightarrow> (if S = {} then m = -1 else m \<in> S \<and> (\<forall>y\<in>S. m \<le> y))"

definition greatest_of :: "int set \<Rightarrow> int \<Rightarrow> bool" where
  "greatest_of S m \<longleftrightarrow> (if S = {} then m = -1 else m \<in> S \<and> (\<forall>y\<in>S. y \<le> m))"

definition cluster_set :: "int \<Rightarrow> int set \<Rightarrow> int \<Rightarrow> int set" where
  "cluster_set lo R i = {l. 0 \<le> l \<and> l < lo \<and> i * lo + l \<in> R}"

definition summary_set :: "int \<Rightarrow> int set \<Rightarrow> int set" where
  "summary_set lo R = {h. \<exists>l. 0 \<le> l \<and> l < lo \<and> h * lo + l \<in> R}"

function valid :: "vEBNode \<Rightarrow> int set \<Rightarrow> bool" where
  "valid V S \<longleftrightarrow>
     S \<subseteq> {0..<u_of V} \<and> least_of S (min_of V) \<and> greatest_of S (max_of V) \<and>
     (if u_of V \<le> 2 then
        u_of V = 2 \<and> summary_of V = None \<and> cluster_of V = [] \<and>
        lower_sqrt_of V = 0 \<and> upper_sqrt_of V = 0
      else
        2 \<le> lower_sqrt_of V \<and> 2 \<le> upper_sqrt_of V \<and>
        lower_sqrt_of V * upper_sqrt_of V = u_of V \<and>
        int (length (cluster_of V)) = upper_sqrt_of V \<and>
        (case summary_of V of None \<Rightarrow> False
         | Some s \<Rightarrow> u_of s = upper_sqrt_of V \<and>
             valid s (summary_set (lower_sqrt_of V) (S - {min_of V}))) \<and>
        (\<forall>i < length (cluster_of V).
           u_of (cluster_of V ! i) = lower_sqrt_of V \<and>
           valid (cluster_of V ! i) (cluster_set (lower_sqrt_of V) (S - {min_of V}) (int i))))"
  by pat_completeness auto
termination
  by (relation "measure (\<lambda>(V, S). size V)") (auto simp: summary_size cluster_mem_size)

declare valid.simps [simp del]

section \<open>Splitting and joining keys\<close>

lemma sdiv_nonneg: "0 \<le> x \<Longrightarrow> 0 < lo \<Longrightarrow> x sdiv lo = x div (lo::int)"
  by (simp add: signed_divide_int_def sgn_if)

lemma smod_nonneg: "0 \<le> x \<Longrightarrow> 0 < lo \<Longrightarrow> x smod lo = x mod (lo::int)"
  by (simp add: signed_modulo_int_def sgn_if)

lemma key_div: "0 < lo \<Longrightarrow> 0 \<le> l \<Longrightarrow> l < lo \<Longrightarrow> (h * lo + l) div lo = (h::int)"
  by simp

lemma key_mod: "0 < lo \<Longrightarrow> 0 \<le> l \<Longrightarrow> l < lo \<Longrightarrow> (h * lo + l) mod lo = (l::int)"
  by simp

lemma key_split:
  "0 < lo \<Longrightarrow> 0 \<le> l \<Longrightarrow> l < lo \<Longrightarrow> h * lo + l = x \<longleftrightarrow> h = x div lo \<and> l = x mod (lo::int)"
  by auto

lemma key_join: "(x div lo) * lo + x mod lo = (x::int)"
  by simp

lemma high_range:
  assumes "0 < lo" "0 \<le> x" "x < lo * up"
  shows "0 \<le> x div lo \<and> x div lo < (up::int)"
proof
  show "0 \<le> x div lo" using assms by (simp add: pos_imp_zdiv_nonneg_iff)
  show "x div lo < up"
  proof (rule ccontr)
    assume "\<not> x div lo < up"
    then have "lo * up \<le> lo * (x div lo)" using assms(1) by (intro mult_left_mono) simp_all
    also have "\<dots> \<le> x"
      using mult_div_mod_eq [of lo x] pos_mod_sign [of lo x] assms(1) by linarith
    finally show False using assms(3) by simp
  qed
qed

lemma low_range: "0 < lo \<Longrightarrow> 0 \<le> x mod lo \<and> x mod lo < (lo::int)"
  by simp

lemma key_less:
  assumes "0 < lo" "0 \<le> l1" "l1 < lo" "0 \<le> l2" "l2 < lo"
  shows "h1 * lo + l1 < h2 * lo + l2 \<longleftrightarrow> h1 < h2 \<or> (h1 = h2 \<and> l1 < (l2::int))"
proof -
  have mono: "a * lo + l < b * lo + l'" if "a < b" "l < lo" "0 \<le> l'" for a b l l' :: int
  proof -
    have "a + 1 \<le> b" using that by simp
    then have "(a + 1) * lo \<le> b * lo" using assms(1) by (intro mult_right_mono) simp_all
    then show ?thesis using that by (simp add: algebra_simps)
  qed
  show ?thesis
  proof (cases h1 h2 rule: linorder_cases)
    case less
    then show ?thesis using mono [of h1 h2 l1 l2] assms by simp
  next
    case equal
    then show ?thesis by simp
  next
    case greater
    then show ?thesis using mono [of h2 h1 l2 l1] assms by simp
  qed
qed

lemma key_range:
  assumes "0 < lo" "0 \<le> l" "l < lo" "0 \<le> h" "h < up"
  shows "0 \<le> h * lo + l \<and> h * lo + l < lo * (up::int)"
proof
  show "0 \<le> h * lo + l" using assms by simp
  have "h + 1 \<le> up" using assms by simp
  then have "(h + 1) * lo \<le> up * lo" using assms(1) by (intro mult_right_mono) simp_all
  then show "h * lo + l < lo * up" using assms by (simp add: algebra_simps)
qed

section \<open>Correctness of the operations on valid trees\<close>

lemma valid_subset: "valid V S \<Longrightarrow> S \<subseteq> {0..<u_of V}"
  by (subst (asm) valid.simps) simp

lemma valid_least: "valid V S \<Longrightarrow> least_of S (min_of V)"
  by (subst (asm) valid.simps) simp

lemma valid_greatest: "valid V S \<Longrightarrow> greatest_of S (max_of V)"
  by (subst (asm) valid.simps) simp

lemma valid_leaf: "valid V S \<Longrightarrow> u_of V \<le> 2 \<Longrightarrow> u_of V = 2"
  by (subst (asm) valid.simps) simp

lemma valid_sqrt:
  "valid V S \<Longrightarrow> 2 < u_of V \<Longrightarrow>
     2 \<le> lower_sqrt_of V \<and> 2 \<le> upper_sqrt_of V \<and>
     lower_sqrt_of V * upper_sqrt_of V = u_of V \<and>
     int (length (cluster_of V)) = upper_sqrt_of V"
  by (subst (asm) valid.simps) simp

lemma valid_summary:
  "valid V S \<Longrightarrow> 2 < u_of V \<Longrightarrow>
     \<exists>s. summary_of V = Some s \<and> u_of s = upper_sqrt_of V \<and>
         valid s (summary_set (lower_sqrt_of V) (S - {min_of V}))"
  by (subst (asm) valid.simps) (auto split: option.splits)

lemma valid_cluster:
  assumes "valid V S" "2 < u_of V" "0 \<le> i" "i < upper_sqrt_of V"
  shows "\<exists>c. cluster_at V i = Some c \<and> u_of c = lower_sqrt_of V \<and>
           valid c (cluster_set (lower_sqrt_of V) (S - {min_of V}) i)"
proof -
  have len: "int (length (cluster_of V)) = upper_sqrt_of V"
    using assms(1,2) by (simp add: valid_sqrt)
  then have n: "nat i < length (cluster_of V)" using assms(3,4) by linarith
  have "\<forall>i < length (cluster_of V).
           u_of (cluster_of V ! i) = lower_sqrt_of V \<and>
           valid (cluster_of V ! i) (cluster_set (lower_sqrt_of V) (S - {min_of V}) (int i))"
    using assms(1,2) by (subst (asm) valid.simps) simp
  from this [rule_format, OF n] show ?thesis
    using assms(3,4) len by (simp add: cluster_at_def)
qed

lemma high_low:
  "0 < lower_sqrt_of V \<Longrightarrow> 0 \<le> x \<Longrightarrow>
     high V x = Some (x div lower_sqrt_of V) \<and> low V x = Some (x mod lower_sqrt_of V)"
  by (simp add: high_def low_def sdiv_nonneg smod_nonneg)

lemma least_of_empty: "least_of S m \<Longrightarrow> S \<subseteq> {0..<u} \<Longrightarrow> m = -1 \<longleftrightarrow> S = {}"
  by (auto simp: least_of_def split: if_splits)

lemma greatest_of_empty: "greatest_of S m \<Longrightarrow> S \<subseteq> {0..<u} \<Longrightarrow> m = -1 \<longleftrightarrow> S = {}"
  by (auto simp: greatest_of_def split: if_splits)

lemma valid_min_empty: "valid V S \<Longrightarrow> min_of V = -1 \<longleftrightarrow> S = {}"
  using least_of_empty valid_least valid_subset by blast

lemma valid_max_empty: "valid V S \<Longrightarrow> max_of V = -1 \<longleftrightarrow> S = {}"
  using greatest_of_empty valid_greatest valid_subset by blast

lemma cluster_set_iff:
  "0 < lo \<Longrightarrow> l \<in> cluster_set lo R i \<longleftrightarrow> 0 \<le> l \<and> l < lo \<and> i * lo + l \<in> R"
  by (simp add: cluster_set_def)

lemma mod_in_cluster_set:
  "0 < lo \<Longrightarrow> x mod lo \<in> cluster_set lo R (x div lo) \<longleftrightarrow> x \<in> R"
  by (simp add: cluster_set_def)

theorem member_correct:
  "valid V S \<Longrightarrow> 0 \<le> x \<Longrightarrow> x < u_of V \<Longrightarrow> vEB_member V x = Some (x \<in> S)"
proof (induction V arbitrary: S x rule: measure_induct_rule [where f = size])
  case (less V)
  note v = \<open>valid V S\<close>
  have sub: "S \<subseteq> {0..<u_of V}" and l: "least_of S (min_of V)" and g: "greatest_of S (max_of V)"
    using v by (simp_all add: valid_subset valid_least valid_greatest)
  show ?case
  proof (cases "x = min_of V \<or> x = max_of V")
    case True
    then have "x \<in> S"
      using l g less.prems(2) by (auto simp: least_of_def greatest_of_def split: if_splits)
    then show ?thesis using True by (subst vEB_member.simps) simp
  next
    case nm: False
    show ?thesis
    proof (cases "u_of V \<le> 2")
      case True
      then have u2: "u_of V = 2" using v by (simp add: valid_leaf)
      have "x \<notin> S"
      proof
        assume xs: "x \<in> S"
        then have "S \<noteq> {}" by auto
        then have m: "min_of V \<in> S" "max_of V \<in> S" "min_of V \<le> x" "x \<le> max_of V"
          using l g xs by (simp_all add: least_of_def greatest_of_def)
        then have "0 \<le> min_of V" "max_of V < 2" using sub u2 by auto
        then show False using nm m(3,4) by linarith
      qed
      then show ?thesis using True nm by (subst vEB_member.simps) simp
    next
      case False
      let ?lo = "lower_sqrt_of V"
      have sq: "2 \<le> ?lo" "?lo * upper_sqrt_of V = u_of V"
        using v False by (simp_all add: valid_sqrt)
      have hr: "0 \<le> x div ?lo \<and> x div ?lo < upper_sqrt_of V"
        using sq less.prems by (intro high_range) simp_all
      obtain c where c: "cluster_at V (x div ?lo) = Some c" "u_of c = ?lo"
        "valid c (cluster_set ?lo (S - {min_of V}) (x div ?lo))"
        using valid_cluster [OF v _ hr [THEN conjunct1] hr [THEN conjunct2]] False by auto
      have "vEB_member c (x mod ?lo) = Some (x mod ?lo \<in> cluster_set ?lo (S - {min_of V}) (x div ?lo))"
        using c sq by (intro less.IH) (simp_all add: cluster_at_size)
      also have "\<dots> = Some (x \<in> S)"
        using sq nm by (simp add: mod_in_cluster_set)
      finally show ?thesis
        using False nm c(1) high_low [of V x] sq less.prems
        by (subst vEB_member.simps) simp
    qed
  qed
qed

lemma cluster_set_empty [simp]: "cluster_set lo {} i = {}"
  by (simp add: cluster_set_def)

lemma summary_set_empty [simp]: "summary_set lo {} = {}"
  by (simp add: summary_set_def)

lemma summary_set_iff: "h \<in> summary_set lo R \<longleftrightarrow> cluster_set lo R h \<noteq> {}"
  by (auto simp: summary_set_def cluster_set_def)

lemma div_in_summary_set: "0 < lo \<Longrightarrow> x \<in> R \<Longrightarrow> x div lo \<in> summary_set lo R"
  unfolding summary_set_def by (rule CollectI, rule exI [of _ "x mod lo"]) simp

lemma cluster_set_insert:
  assumes "0 < lo"
  shows "cluster_set lo (insert x R) i =
    (if i = x div lo then insert (x mod lo) (cluster_set lo R i) else cluster_set lo R i)"
proof -
  have "i * lo + l = x \<longleftrightarrow> i = x div lo \<and> l = x mod lo" if "0 \<le> l" "l < lo" for l
    using key_split [OF assms that] .
  then show ?thesis using assms by (auto simp: cluster_set_def)
qed

lemma cluster_set_remove:
  assumes "0 < lo"
  shows "cluster_set lo (R - {x}) i =
    (if i = x div lo then cluster_set lo R i - {x mod lo} else cluster_set lo R i)"
proof -
  have "i * lo + l = x \<longleftrightarrow> i = x div lo \<and> l = x mod lo" if "0 \<le> l" "l < lo" for l
    using key_split [OF assms that] .
  then show ?thesis using assms by (auto simp: cluster_set_def)
qed

lemma summary_set_insert:
  assumes "0 < lo"
  shows "summary_set lo (insert x R) = insert (x div lo) (summary_set lo R)"
  by (rule set_eqI) (simp add: summary_set_iff cluster_set_insert [OF assms])

lemma summary_set_remove:
  assumes "0 < lo"
  shows "summary_set lo (R - {x}) =
    (if cluster_set lo R (x div lo) - {x mod lo} = {} then summary_set lo R - {x div lo}
     else summary_set lo R)"
  by (rule set_eqI) (auto simp add: summary_set_iff cluster_set_remove [OF assms])

lemma valid_cluster_nth:
  "valid V S \<Longrightarrow> 2 < u_of V \<Longrightarrow> i < length (cluster_of V) \<Longrightarrow>
     u_of (cluster_of V ! i) = lower_sqrt_of V \<and>
     valid (cluster_of V ! i) (cluster_set (lower_sqrt_of V) (S - {min_of V}) (int i))"
  by (subst (asm) valid.simps) simp

lemma valid_update:
  assumes v: "valid V S" and u: "2 < u_of V"
    and f: "u_of V' = u_of V" "lower_sqrt_of V' = lower_sqrt_of V"
      "upper_sqrt_of V' = upper_sqrt_of V" "summary_of V' = Some s'"
      "cluster_of V' = (cluster_of V)[nat h := c']"
    and h: "0 \<le> h"
    and S': "S' \<subseteq> {0..<u_of V}" "least_of S' (min_of V')" "greatest_of S' (max_of V')"
    and s': "u_of s' = upper_sqrt_of V" "valid s' (summary_set (lower_sqrt_of V) (S' - {min_of V'}))"
    and c': "u_of c' = lower_sqrt_of V" "valid c' (cluster_set (lower_sqrt_of V) (S' - {min_of V'}) h)"
    and others: "\<And>i. i \<noteq> h \<Longrightarrow> cluster_set (lower_sqrt_of V) (S' - {min_of V'}) i =
       cluster_set (lower_sqrt_of V) (S - {min_of V}) i"
  shows "valid V' S'"
proof -
  have cl: "u_of (cluster_of V' ! i) = lower_sqrt_of V' \<and>
     valid (cluster_of V' ! i) (cluster_set (lower_sqrt_of V') (S' - {min_of V'}) (int i))"
    if i: "i < length (cluster_of V')" for i
  proof (cases "i = nat h")
    case True
    then show ?thesis using i f c' h by simp
  next
    case False
    then have "int i \<noteq> h" using h by auto
    then show ?thesis using valid_cluster_nth [OF v u, of i] i f others [of "int i"] False by simp
  qed
  show ?thesis
    using u f S' s' valid_sqrt [OF v u] cl by (subst valid.simps) simp
qed

lemma valid_leaf_fields:
  "valid V S \<Longrightarrow> u_of V \<le> 2 \<Longrightarrow>
     u_of V = 2 \<and> summary_of V = None \<and> cluster_of V = [] \<and>
     lower_sqrt_of V = 0 \<and> upper_sqrt_of V = 0"
  by (subst (asm) valid.simps) simp

lemma valid_same_rest:
  assumes v: "valid V S"
    and f: "u_of V' = u_of V" "lower_sqrt_of V' = lower_sqrt_of V"
      "upper_sqrt_of V' = upper_sqrt_of V" "summary_of V' = summary_of V"
      "cluster_of V' = cluster_of V"
    and S': "S' \<subseteq> {0..<u_of V}" "least_of S' (min_of V')" "greatest_of S' (max_of V')"
    and rest: "S' - {min_of V'} = S - {min_of V}"
  shows "valid V' S'"
proof (cases "u_of V \<le> 2")
  case True
  then show ?thesis
    using valid_leaf_fields [OF v True] f S' by (subst valid.simps) simp
next
  case False
  then have u: "2 < u_of V" by simp
  obtain s where s: "summary_of V = Some s" "u_of s = upper_sqrt_of V"
    "valid s (summary_set (lower_sqrt_of V) (S - {min_of V}))"
    using valid_summary [OF v u] by auto
  show ?thesis
    using u f S' s rest valid_sqrt [OF v u] valid_cluster_nth [OF v u]
    by (subst valid.simps) simp
qed

lemma valid_empty_insert:
  assumes "valid V {}" "0 \<le> x" "x < u_of V"
  shows "valid (vEB_empty_insert V x) {x}"
  using assms(1)
proof (rule valid_same_rest)
  show "{x} \<subseteq> {0..<u_of V}" using assms by simp
qed (simp_all add: vEB_empty_insert_def least_of_def greatest_of_def)

lemma valid_clear:
  assumes "valid V S" "min_of V = max_of V"
  shows "valid (set_max (set_min V (-1)) (-1)) {}"
  using assms(1)
proof (rule valid_same_rest)
  have "S \<subseteq> {min_of V}"
  proof (cases "S = {}")
    case False
    then have "\<forall>y\<in>S. min_of V \<le> y \<and> y \<le> max_of V"
      using valid_least [OF assms(1)] valid_greatest [OF assms(1)]
      by (simp add: least_of_def greatest_of_def)
    then show ?thesis using assms(2) by auto
  qed simp
  then show "{} - {min_of (set_max (set_min V (- 1)) (- 1))} = S - {min_of V}" by auto
qed (simp_all add: least_of_def greatest_of_def)

lemma valid_leafI:
  "u_of V = 2 \<Longrightarrow> summary_of V = None \<Longrightarrow> cluster_of V = [] \<Longrightarrow> lower_sqrt_of V = 0 \<Longrightarrow>
   upper_sqrt_of V = 0 \<Longrightarrow> S \<subseteq> {0..<2} \<Longrightarrow> least_of S (min_of V) \<Longrightarrow>
   greatest_of S (max_of V) \<Longrightarrow> valid V S"
  by (subst valid.simps) simp

lemma cluster_at_cong: "cluster_of V' = cluster_of V \<Longrightarrow> cluster_at V' i = cluster_at V i"
  by (simp add: cluster_at_def)

theorem insert_correct:
  "valid V S \<Longrightarrow> 0 \<le> x \<Longrightarrow> x < u_of V \<Longrightarrow>
     \<exists>V'. vEB_insert V x = Some (OK, V') \<and> valid V' (insert x S) \<and> u_of V' = u_of V"
proof (induction V arbitrary: S x rule: measure_induct_rule [where f = size])
  case (less V)
  note v = \<open>valid V S\<close> and x = \<open>0 \<le> x\<close> \<open>x < u_of V\<close>
  have mem: "vEB_member V x = Some (x \<in> S)" using member_correct [OF v x] .
  have sub: "S \<subseteq> {0..<u_of V}" using v by (rule valid_subset)
  show ?case
  proof (cases "x \<in> S")
    case True
    then have "vEB_insert V x = Some (OK, V)"
      using x mem by (subst vEB_insert.simps) simp
    moreover have "insert x S = S" using True by auto
    ultimately show ?thesis using v by simp
  next
    case xS: False
    show ?thesis
    proof (cases "S = {}")
      case True
      then have "min_of V = -1" using valid_min_empty [OF v] by simp
      then have "vEB_insert V x = Some (OK, vEB_empty_insert V x)"
        using x mem xS by (subst vEB_insert.simps) simp
      moreover have "valid (vEB_empty_insert V x) (insert x S)"
        using valid_empty_insert [of V x] v True x by simp
      ultimately show ?thesis by (simp add: vEB_empty_insert_def)
    next
      case ne: False
      then have mn: "min_of V \<noteq> -1" using valid_min_empty [OF v] by simp
      define x1 where "x1 = (if x < min_of V then min_of V else x)"
      define V1 where "V1 = (if x < min_of V then set_min V x else V)"
      have pair: "(if x < min_of V then (min_of V, set_min V x) else (x, V)) = (x1, V1)"
        by (simp add: x1_def V1_def)
      have V1: "u_of V1 = u_of V" "lower_sqrt_of V1 = lower_sqrt_of V"
        "upper_sqrt_of V1 = upper_sqrt_of V" "summary_of V1 = summary_of V"
        "cluster_of V1 = cluster_of V" "max_of V1 = max_of V"
        "min_of V1 = (if x < min_of V then x else min_of V)"
        by (simp_all add: V1_def)
      have mnS: "min_of V \<in> S" "\<forall>y\<in>S. min_of V \<le> y"
        using valid_least [OF v] ne by (simp_all add: least_of_def)
      have mxS: "max_of V \<in> S" "\<forall>y\<in>S. y \<le> max_of V"
        using valid_greatest [OF v] ne by (simp_all add: greatest_of_def)
      have xmn: "x \<noteq> min_of V" "x \<noteq> max_of V" using xS mnS mxS by auto
      have mnmx: "min_of V \<le> max_of V" using mnS mxS by auto
      have x1r: "0 \<le> x1" "x1 < u_of V" using x mnS(1) sub by (auto simp: x1_def)
      have rest: "insert x S - {min_of V1} = insert x1 (S - {min_of V})"
        using xS mnS(1) xmn by (auto simp: x1_def V1)
      have l': "least_of (insert x S) (min_of V1)"
        using mnS by (auto simp: least_of_def V1)
      have gt: "x1 > max_of V \<longleftrightarrow> x > max_of V"
        using mnmx by (auto simp: x1_def)
      have g': "x1 > max_of V \<Longrightarrow> greatest_of (insert x S) x1"
        "\<not> x1 > max_of V \<Longrightarrow> greatest_of (insert x S) (max_of V)"
        using mxS mnmx by (auto simp: greatest_of_def x1_def split: if_splits)
      have sub': "insert x S \<subseteq> {0..<u_of V}" using sub x by simp
      show ?thesis
      proof (cases "u_of V \<le> 2")
        case True
        let ?W = "if x1 > max_of V1 then set_max V1 x1 else V1"
        have "vEB_insert V x = Some (OK, ?W)"
          using x mem xS mn True V1(1) by (subst vEB_insert.simps) (simp add: pair)
        moreover have "valid ?W (insert x S)"
          using valid_leaf_fields [OF v True] V1 sub' l' g'
          by (intro valid_leafI) (simp_all)
        ultimately show ?thesis using V1(1) by simp
      next
        case False
        then have u: "2 < u_of V" by simp
        let ?lo = "lower_sqrt_of V" and ?up = "upper_sqrt_of V"
        let ?R = "S - {min_of V}"
        have sq: "2 \<le> ?lo" "2 \<le> ?up" "?lo * ?up = u_of V"
          using valid_sqrt [OF v u] by simp_all
        then have lo0: "0 < ?lo" by simp
        define h where "h = x1 div ?lo"
        define l where "l = x1 mod ?lo"
        have hl: "high V1 x1 = Some h" "low V1 x1 = Some l"
          using high_low [of V1 x1] lo0 x1r V1 by (simp_all add: h_def l_def)
        have hr: "0 \<le> h" "h < ?up"
          using high_range [of ?lo x1 ?up] lo0 x1r sq by (simp_all add: h_def)
        have lr: "0 \<le> l" "l < ?lo" using lo0 by (simp_all add: l_def)
        obtain c where c: "cluster_at V h = Some c" "u_of c = ?lo"
          "valid c (cluster_set ?lo ?R h)"
          using valid_cluster [OF v u hr] by auto
        have c1: "cluster_at V1 h = Some c" using c(1) cluster_at_cong [OF V1(5)] by simp
        obtain s where s: "summary_of V = Some s" "u_of s = ?up"
          "valid s (summary_set ?lo ?R)"
          using valid_summary [OF v u] by auto
        have cs': "cluster_set ?lo (insert x1 ?R) i =
           (if i = h then insert l (cluster_set ?lo ?R h) else cluster_set ?lo ?R i)" for i
          using cluster_set_insert [OF lo0] by (simp add: h_def l_def)
        have ss': "summary_set ?lo (insert x1 ?R) = insert h (summary_set ?lo ?R)"
          using summary_set_insert [OF lo0] by (simp add: h_def)
        show ?thesis
        proof (cases "min_of c = -1")
          case True
          then have ce: "cluster_set ?lo ?R h = {}" using valid_min_empty [OF c(3)] by simp
          have "size s < size V" using s(1) by (rule summary_size)
          from less.IH [OF this s(3), of h] hr s(2)
          obtain s' where s': "vEB_insert s h = Some (OK, s')"
            "valid s' (insert h (summary_set ?lo ?R))" "u_of s' = u_of s"
            by auto
          define V2 where "V2 = set_cluster (set_summary V1 s') h (vEB_empty_insert c l)"
          let ?W = "if x1 > max_of V2 then set_max V2 x1 else V2"
          have "vEB_insert V x = Some (OK, ?W)"
            using x mem xS mn u V1(1,4) hl c1 True s(1) s'(1)
            by (subst vEB_insert.simps) (simp add: pair V2_def)
          moreover have "valid ?W (insert x S)"
          proof (rule valid_update [OF v u, where h = h and s' = s'
                and c' = "vEB_empty_insert c l"])
            show "valid s' (summary_set ?lo (insert x S - {min_of ?W}))"
              using s'(2) rest ss' by (simp add: V2_def)
            show "valid (vEB_empty_insert c l) (cluster_set ?lo (insert x S - {min_of ?W}) h)"
              using valid_empty_insert [of c l] c(2,3) ce lr rest cs' by (simp add: V2_def)
            show "cluster_set ?lo (insert x S - {min_of ?W}) i = cluster_set ?lo ?R i"
              if "i \<noteq> h" for i
              using that rest cs' by (simp add: V2_def)
            show "least_of (insert x S) (min_of ?W)" using l' by (simp add: V2_def)
            show "greatest_of (insert x S) (max_of ?W)" using g' by (simp add: V2_def V1)
          qed (use V1 hr sub' s' s c in \<open>simp_all add: V2_def vEB_empty_insert_def\<close>)
          ultimately show ?thesis by (simp add: V2_def V1)
        next
          case False
          then have cne: "cluster_set ?lo ?R h \<noteq> {}" using valid_min_empty [OF c(3)] by simp
          then have hs: "h \<in> summary_set ?lo ?R" by (simp add: summary_set_iff)
          have "size c < size V" using c(1) by (rule cluster_at_size)
          from less.IH [OF this c(3), of l] lr c(2)
          obtain c' where c': "vEB_insert c l = Some (OK, c')"
            "valid c' (insert l (cluster_set ?lo ?R h))" "u_of c' = u_of c"
            by auto
          define V2 where "V2 = set_cluster V1 h c'"
          let ?W = "if x1 > max_of V2 then set_max V2 x1 else V2"
          have "vEB_insert V x = Some (OK, ?W)"
            using x mem xS mn u V1(1,4) hl c1 False c'(1)
            by (subst vEB_insert.simps) (simp add: pair V2_def)
          moreover have "valid ?W (insert x S)"
          proof (rule valid_update [OF v u, where h = h and s' = s and c' = c'])
            show "valid s (summary_set ?lo (insert x S - {min_of ?W}))"
              using s(3) rest ss' hs by (simp add: V2_def insert_absorb)
            show "valid c' (cluster_set ?lo (insert x S - {min_of ?W}) h)"
              using c'(2) rest cs' by (simp add: V2_def)
            show "cluster_set ?lo (insert x S - {min_of ?W}) i = cluster_set ?lo ?R i"
              if "i \<noteq> h" for i
              using that rest cs' by (simp add: V2_def)
            show "least_of (insert x S) (min_of ?W)" using l' by (simp add: V2_def)
            show "greatest_of (insert x S) (max_of ?W)" using g' by (simp add: V2_def V1)
          qed (use V1 hr sub' c' s c in \<open>simp_all add: V2_def\<close>)
          ultimately show ?thesis by (simp add: V2_def V1)
        qed
      qed
    qed
  qed
qed

lemma summary_set_eq_empty: "0 < lo \<Longrightarrow> summary_set lo R = {} \<longleftrightarrow> R = {}"
  using div_in_summary_set [of lo _ R] by (auto simp: summary_set_def)

lemma greatest_join:
  assumes lo: "0 < lo" and ne: "R \<noteq> {}"
    and hm: "greatest_of (summary_set lo R) hm"
    and lm: "greatest_of (cluster_set lo R hm) lm"
  shows "greatest_of R (hm * lo + lm)"
proof -
  have sne: "summary_set lo R \<noteq> {}" using ne lo by (simp add: summary_set_eq_empty)
  then have h1: "hm \<in> summary_set lo R" and h2: "\<forall>h\<in>summary_set lo R. h \<le> hm"
    using hm by (simp_all add: greatest_of_def)
  from h1 have cne: "cluster_set lo R hm \<noteq> {}" by (simp add: summary_set_iff)
  then have l1: "lm \<in> cluster_set lo R hm" and l2: "\<forall>l\<in>cluster_set lo R hm. l \<le> lm"
    using lm by (simp_all add: greatest_of_def)
  from l1 have lmr: "0 \<le> lm" "lm < lo" "hm * lo + lm \<in> R" by (simp_all add: cluster_set_def)
  have "y \<le> hm * lo + lm" if y: "y \<in> R" for y
  proof -
    have a: "y div lo \<le> hm" using h2 div_in_summary_set [OF lo y] by simp
    have b: "y mod lo \<le> lm" if "y div lo = hm"
      using l2 mod_in_cluster_set [OF lo, of y R] y that by auto
    have "\<not> hm * lo + lm < (y div lo) * lo + y mod lo"
      using a b lo lmr by (subst key_less) auto
    then show ?thesis by simp
  qed
  then show ?thesis using lmr(3) ne by (simp add: greatest_of_def)
qed

lemma least_join:
  assumes lo: "0 < lo" and ne: "R \<noteq> {}"
    and hm: "least_of (summary_set lo R) hm"
    and lm: "least_of (cluster_set lo R hm) lm"
  shows "least_of R (hm * lo + lm)"
proof -
  have sne: "summary_set lo R \<noteq> {}" using ne lo by (simp add: summary_set_eq_empty)
  then have h1: "hm \<in> summary_set lo R" and h2: "\<forall>h\<in>summary_set lo R. hm \<le> h"
    using hm by (simp_all add: least_of_def)
  from h1 have cne: "cluster_set lo R hm \<noteq> {}" by (simp add: summary_set_iff)
  then have l1: "lm \<in> cluster_set lo R hm" and l2: "\<forall>l\<in>cluster_set lo R hm. lm \<le> l"
    using lm by (simp_all add: least_of_def)
  from l1 have lmr: "0 \<le> lm" "lm < lo" "hm * lo + lm \<in> R" by (simp_all add: cluster_set_def)
  have "hm * lo + lm \<le> y" if y: "y \<in> R" for y
  proof -
    have a: "hm \<le> y div lo" using h2 div_in_summary_set [OF lo y] by simp
    have b: "lm \<le> y mod lo" if "y div lo = hm"
      using l2 mod_in_cluster_set [OF lo, of y R] y that by auto
    have "\<not> (y div lo) * lo + y mod lo < hm * lo + lm"
      using a b lo lmr by (subst key_less) auto
    then show ?thesis by simp
  qed
  then show ?thesis using lmr(3) ne by (simp add: least_of_def)
qed

lemma greatest_of_insert_least:
  "greatest_of R g \<Longrightarrow> R \<noteq> {} \<Longrightarrow> \<forall>y\<in>R. m \<le> y \<Longrightarrow> greatest_of (insert m R) g"
  by (auto simp: greatest_of_def)

lemma least_of_unique: "least_of S a \<Longrightarrow> least_of S b \<Longrightarrow> a = b"
  by (auto simp: least_of_def split: if_splits intro: antisym)

lemma greatest_of_unique: "greatest_of S a \<Longrightarrow> greatest_of S b \<Longrightarrow> a = b"
  by (auto simp: greatest_of_def split: if_splits intro: antisym)

theorem delete_correct:
  "valid V S \<Longrightarrow> x \<in> S \<Longrightarrow>
     \<exists>V'. vEB_delete V x = Some (OK, V') \<and> valid V' (S - {x}) \<and> u_of V' = u_of V"
proof (induction V arbitrary: S x rule: measure_induct_rule [where f = size])
  case (less V)
  note v = \<open>valid V S\<close> and xS = \<open>x \<in> S\<close>
  have sub: "S \<subseteq> {0..<u_of V}" using v by (rule valid_subset)
  have x: "0 \<le> x" "x < u_of V" using sub xS by auto
  have ne: "S \<noteq> {}" using xS by auto
  have mnS: "min_of V \<in> S" "\<forall>y\<in>S. min_of V \<le> y"
    using valid_least [OF v] ne by (simp_all add: least_of_def)
  have mxS: "max_of V \<in> S" "\<forall>y\<in>S. y \<le> max_of V"
    using valid_greatest [OF v] ne by (simp_all add: greatest_of_def)
  show ?case
  proof (cases "min_of V = max_of V")
    case True
    have eq: "y = min_of V" if "y \<in> S" for y
      using mnS(2) mxS(2) True that by (intro antisym) auto
    have Sx: "S - {x} = {}" using eq [OF xS] eq by auto
    have "vEB_delete V x = Some (OK, set_max (set_min V (-1)) (-1))"
      using x True by (subst vEB_delete.simps) simp
    moreover have "valid (set_max (set_min V (-1)) (-1)) (S - {x})"
      unfolding Sx by (rule valid_clear [OF v True])
    ultimately show ?thesis by simp
  next
    case neq: False
    show ?thesis
    proof (cases "u_of V \<le> 2")
      case True
      then have u2: "u_of V = 2" using valid_leaf [OF v] by simp
      define m where "m = (if x = 0 then 1 else (0::int))"
      have "min_of V \<le> max_of V" using mnS mxS by auto
      moreover have "0 \<le> min_of V" "max_of V < 2" using mnS(1) mxS(1) sub u2 by auto
      ultimately have mm: "min_of V = 0" "max_of V = 1" using neq by auto
      have "S = {0, 1}" using sub u2 mnS(1) mxS(1) mm by auto
      then have S': "S - {x} = {m}" using xS by (auto simp: m_def)
      have "vEB_delete V x = Some (OK, set_max (set_min V m) m)"
        using x neq u2 by (subst vEB_delete.simps) (simp add: m_def)
      moreover have "valid (set_max (set_min V m) m) (S - {x})"
        unfolding S' using valid_leaf_fields [OF v True]
        by (intro valid_leafI) (simp_all add: least_of_def greatest_of_def m_def)
      ultimately show ?thesis by simp
    next
      case False
      then have u: "2 < u_of V" by simp
      let ?lo = "lower_sqrt_of V" and ?up = "upper_sqrt_of V"
      let ?R = "S - {min_of V}"
      have sq: "2 \<le> ?lo" "2 \<le> ?up" "?lo * ?up = u_of V"
        using valid_sqrt [OF v u] by simp_all
      then have lo0: "0 < ?lo" by simp
      have Rne: "?R \<noteq> {}" using mxS(1) neq by auto
      obtain s where s: "summary_of V = Some s" "u_of s = ?up"
        "valid s (summary_set ?lo ?R)"
        using valid_summary [OF v u] by auto
      \<comment> \<open>the smallest value stored in the clusters\<close>
      have f1: "least_of (summary_set ?lo ?R) (min_of s)" using valid_least [OF s(3)] .
      have "summary_set ?lo ?R \<noteq> {}" using Rne lo0 by (simp add: summary_set_eq_empty)
      then have "min_of s \<in> summary_set ?lo ?R" using f1 by (simp add: least_of_def)
      then have fr: "0 \<le> min_of s" "min_of s < ?up" using valid_subset [OF s(3)] s(2) by auto
      obtain cf where cf: "cluster_at V (min_of s) = Some cf"
        "valid cf (cluster_set ?lo ?R (min_of s))"
        using valid_cluster [OF v u fr] by auto
      define x' where "x' = idx V (vEB_min s) (vEB_min cf)"
      have lx: "least_of ?R x'"
        using least_join [OF lo0 Rne f1 valid_least [OF cf(2)]]
        by (simp add: x'_def idx_def vEB_min_def)
      then have x'R: "x' \<in> ?R" "\<forall>y\<in>?R. x' \<le> y" using Rne by (simp_all add: least_of_def)
      \<comment> \<open>the value removed from the clusters, and the node with its new minimum\<close>
      define x1 where "x1 = (if x = min_of V then x' else x)"
      define V1 where "V1 = (if x = min_of V then set_min V x' else V)"
      have V1: "u_of V1 = u_of V" "lower_sqrt_of V1 = lower_sqrt_of V"
        "upper_sqrt_of V1 = upper_sqrt_of V" "summary_of V1 = summary_of V"
        "cluster_of V1 = cluster_of V" "max_of V1 = max_of V"
        "min_of V1 = (if x = min_of V then x' else min_of V)"
        by (simp_all add: V1_def)
      have x1R: "x1 \<in> ?R" using x'R(1) xS by (simp add: x1_def)
      have l': "least_of (S - {x}) (min_of V1)"
        using x'R mnS xS by (auto simp: V1 least_of_def)
      have rest: "S - {x} - {min_of V1} = ?R - {x1}"
        by (auto simp: V1 x1_def)
      let ?R' = "?R - {x1}"
      have x1r: "0 \<le> x1" "x1 < u_of V" using x1R sub by auto
      define h where "h = x1 div ?lo"
      define l where "l = x1 mod ?lo"
      have hl: "high V1 x1 = Some h" "low V1 x1 = Some l"
        using high_low [of V1 x1] lo0 x1r V1 by (simp_all add: h_def l_def)
      have hr: "0 \<le> h" "h < ?up"
        using high_range [of ?lo x1 ?up] lo0 x1r sq by (simp_all add: h_def)
      obtain c where c: "cluster_at V h = Some c" "u_of c = ?lo"
        "valid c (cluster_set ?lo ?R h)"
        using valid_cluster [OF v u hr] by auto
      have c1: "cluster_at V1 h = Some c" using c(1) cluster_at_cong [OF V1(5)] by simp
      have lc: "l \<in> cluster_set ?lo ?R h"
        using x1R mod_in_cluster_set [OF lo0, of x1 ?R] by (simp add: h_def l_def)
      have "size c < size V" using c(1) by (rule cluster_at_size)
      from less.IH [OF this c(3) lc]
      obtain c' where c': "vEB_delete c l = Some (OK, c')"
        "valid c' (cluster_set ?lo ?R h - {l})" "u_of c' = u_of c"
        by auto
      have cs': "cluster_set ?lo ?R' i =
         (if i = h then cluster_set ?lo ?R h - {l} else cluster_set ?lo ?R i)" for i
        using cluster_set_remove [OF lo0] by (simp add: h_def l_def)
      have ss': "summary_set ?lo ?R' =
         (if cluster_set ?lo ?R h - {l} = {} then summary_set ?lo ?R - {h}
          else summary_set ?lo ?R)"
        using summary_set_remove [OF lo0, of ?R x1] by (simp add: h_def l_def)
      define V2 where "V2 = set_cluster V1 h c'"
      have S2: "S - {x} \<noteq> {}" using mnS(1) mxS(1) neq by auto
      then have mn1: "min_of V1 \<in> S - {x}" "\<forall>y\<in>S - {x}. min_of V1 \<le> y"
        using l' by (simp_all add: least_of_def)
      have S'eq: "S - {x} = insert (min_of V1) ?R'" using mn1(1) rest by auto
      have g_keep: "greatest_of (S - {x}) (max_of V)" if "x1 \<noteq> max_of V"
      proof -
        have "max_of V \<noteq> x" using that neq by (auto simp: x1_def split: if_splits)
        then show ?thesis using mxS by (auto simp: greatest_of_def)
      qed
      have g_rest: "greatest_of (S - {x}) g" if "greatest_of ?R' g" "?R' \<noteq> {}" for g
        unfolding S'eq using that
      proof (rule greatest_of_insert_least)
        show "\<forall>y\<in>?R'. min_of V1 \<le> y" using mn1(2) rest by auto
      qed
      have g_single: "greatest_of (S - {x}) (min_of V1)" if "?R' = {}"
      proof -
        have "S - {x} = {min_of V1}" using S'eq unfolding that .
        then show ?thesis by (simp only: greatest_of_def) simp
      qed
      have final: "valid W (S - {x})"
        if "u_of W = u_of V" "lower_sqrt_of W = ?lo" "upper_sqrt_of W = ?up"
          "summary_of W = Some sW" "cluster_of W = (cluster_of V)[nat h := c']"
          "min_of W = min_of V1" "greatest_of (S - {x}) (max_of W)"
          "valid sW (summary_set ?lo ?R')" "u_of sW = ?up" for W sW
      proof (rule valid_update [OF v u, where h = h and s' = sW and c' = c'])
        show "S - {x} \<subseteq> {0..<u_of V}" using sub by auto
        show "valid c' (cluster_set ?lo (S - {x} - {min_of W}) h)"
          using c'(2) that(6) rest cs' by simp
        show "cluster_set ?lo (S - {x} - {min_of W}) i = cluster_set ?lo ?R i" if "i \<noteq> h" for i
          using that \<open>min_of W = min_of V1\<close> rest cs' by simp
      qed (use that l' rest hr c c' in simp_all)
      have step1:
        "(if x = min_of V then do {
             s \<leftarrow> summary_of V;
             let first = vEB_min s;
             cf \<leftarrow> cluster_at V first;
             let off = vEB_min cf;
             let x' = idx V first off;
             Some (x', set_min V x')
           }
           else Some (x, V)) = Some (x1, V1)"
        using s(1) cf(1) by (simp add: x1_def V1_def x'_def vEB_min_def Let_def)
      have cl2: "\<exists>ci. cluster_at V2 i = Some ci \<and> valid ci (cluster_set ?lo ?R' i)"
        if i: "0 \<le> i" "i < ?up" for i
      proof -
        have len: "int (length (cluster_of V)) = ?up" using valid_sqrt [OF v u] by simp
        show ?thesis
        proof (cases "i = h")
          case True
          then show ?thesis
            using c'(2) cs' i len by (simp add: cluster_at_def V2_def V1)
        next
          case False
          then have "nat i \<noteq> nat h" using i hr by auto
          then show ?thesis
            using valid_cluster [OF v u i] cs' False i len
            by (auto simp: cluster_at_def V2_def V1)
        qed
      qed
      show ?thesis
      proof (cases "min_of c' = -1")
        case cempty: True
        then have ce: "cluster_set ?lo ?R h - {l} = {}" using valid_min_empty [OF c'(2)] by simp
        have hs: "h \<in> summary_set ?lo ?R" using lc by (auto simp: summary_set_iff)
        have "size s < size V" using s(1) by (rule summary_size)
        from less.IH [OF this s(3) hs]
        obtain s' where s': "vEB_delete s h = Some (OK, s')"
          "valid s' (summary_set ?lo ?R - {h})" "u_of s' = u_of s"
          by auto
        have vs': "valid s' (summary_set ?lo ?R')" using s'(2) ss' ce by simp
        define V3 where "V3 = set_summary V2 s'"
        show ?thesis
        proof (cases "x1 = max_of V")
          case mx: True
          show ?thesis
          proof (cases "max_of s' = -1")
            case True
            then have "summary_set ?lo ?R' = {}" using valid_max_empty [OF vs'] by simp
            then have R'e: "?R' = {}" using summary_set_eq_empty [OF lo0] by simp
            let ?W = "set_max V3 (min_of V3)"
            have "vEB_delete V x = Some (OK, ?W)"
              using x neq u hl c1 c'(1) cempty s(1) s'(1) mx True
              by (subst vEB_delete.simps)
                 (simp add: step1 Let_def V1 vEB_min_def vEB_max_def V2_def V3_def)
            moreover have "valid ?W (S - {x})"
              by (rule final [where sW = s'])
                 (use g_single [OF R'e] vs' s' s in \<open>simp_all add: V3_def V2_def V1\<close>)
            ultimately show ?thesis by (simp add: V3_def V2_def V1)
          next
            case False
            then have sne: "summary_set ?lo ?R' \<noteq> {}" using valid_max_empty [OF vs'] by simp
            then have R'ne: "?R' \<noteq> {}" using summary_set_eq_empty [OF lo0, of ?R'] by simp
            have gs: "greatest_of (summary_set ?lo ?R') (max_of s')"
              using valid_greatest [OF vs'] .
            then have "max_of s' \<in> summary_set ?lo ?R'" using sne by (simp add: greatest_of_def)
            then have smr: "0 \<le> max_of s'" "max_of s' < ?up"
              using valid_subset [OF vs'] s'(3) s(2) by auto
            obtain cm where cm: "cluster_at V2 (max_of s') = Some cm"
              "valid cm (cluster_set ?lo ?R' (max_of s'))"
              using cl2 [OF smr] by auto
            have cm3: "cluster_at V3 (max_of s') = Some cm"
              using cm(1) cluster_at_cong [of V3 V2] by (simp add: V3_def)
            have g: "greatest_of ?R' (max_of s' * ?lo + max_of cm)"
              using greatest_join [OF lo0 R'ne gs valid_greatest [OF cm(2)]] .
            let ?W = "set_max V3 (idx V3 (max_of s') (vEB_max cm))"
            have "vEB_delete V x = Some (OK, ?W)"
              using x neq u hl c1 c'(1) cempty s(1) s'(1) mx False cm3
              by (subst vEB_delete.simps)
                 (simp add: step1 Let_def V1 vEB_min_def vEB_max_def V2_def V3_def)
            moreover have "valid ?W (S - {x})"
              by (rule final [where sW = s'])
                 (use g_rest [OF g R'ne] vs' s' s in
                    \<open>simp_all add: V3_def V2_def V1 idx_def vEB_max_def\<close>)
            ultimately show ?thesis by (simp add: V3_def V2_def V1)
          qed
        next
          case nmx: False
          have "vEB_delete V x = Some (OK, V3)"
            using x neq u hl c1 c'(1) cempty s(1) s'(1) nmx
            by (subst vEB_delete.simps)
               (simp add: step1 Let_def V1 vEB_min_def vEB_max_def V2_def V3_def)
          moreover have "valid V3 (S - {x})"
            by (rule final [where sW = s'])
               (use g_keep [OF nmx] vs' s' s in \<open>simp_all add: V3_def V2_def V1\<close>)
          ultimately show ?thesis by (simp add: V3_def V2_def V1)
        qed
      next
        case cne: False
        then have ce: "cluster_set ?lo ?R h - {l} \<noteq> {}" using valid_min_empty [OF c'(2)] by simp
        have vs: "valid s (summary_set ?lo ?R')" using s(3) ss' ce by simp
        have R'ne: "?R' \<noteq> {}"
        proof
          assume "?R' = {}"
          then have "cluster_set ?lo ?R' h = {}" by (simp only: cluster_set_empty)
          then show False using ce cs' [of h] by simp
        qed
        show ?thesis
        proof (cases "x1 = max_of V")
          case mx: True
          have hin: "h \<in> summary_set ?lo ?R'" using ce cs' [of h] by (simp add: summary_set_iff)
          have "h' \<le> h" if "h' \<in> summary_set ?lo ?R'" for h'
          proof -
            from that obtain l' where l': "0 \<le> l'" "l' < ?lo" "h' * ?lo + l' \<in> ?R'"
              by (auto simp: summary_set_def)
            then have "h' * ?lo + l' \<le> x1" using mxS(2) mx by auto
            then have "(h' * ?lo + l') div ?lo \<le> x1 div ?lo" using lo0 by (rule zdiv_mono1)
            then show ?thesis using key_div [OF lo0 l'(1,2)] by (simp add: h_def)
          qed
          then have gs: "greatest_of (summary_set ?lo ?R') h"
            using hin by (auto simp: greatest_of_def)
          have gc: "greatest_of (cluster_set ?lo ?R' h) (max_of c')"
            using valid_greatest [OF c'(2)] cs' [of h] by simp
          have g: "greatest_of ?R' (h * ?lo + max_of c')"
            using greatest_join [OF lo0 R'ne gs gc] .
          let ?W = "set_max V2 (idx V2 h (vEB_max c'))"
          have "vEB_delete V x = Some (OK, ?W)"
            using x neq u hl c1 c'(1) cne mx
            by (subst vEB_delete.simps)
               (simp add: step1 Let_def V1 vEB_min_def vEB_max_def V2_def)
          moreover have "valid ?W (S - {x})"
            by (rule final [where sW = s])
               (use g_rest [OF g R'ne] vs s in
                  \<open>simp_all add: V2_def V1 idx_def vEB_max_def\<close>)
          ultimately show ?thesis by (simp add: V2_def V1)
        next
          case nmx: False
          have "vEB_delete V x = Some (OK, V2)"
            using x neq u hl c1 c'(1) cne nmx
            by (subst vEB_delete.simps)
               (simp add: step1 Let_def V1 vEB_min_def vEB_max_def V2_def)
          moreover have "valid V2 (S - {x})"
            by (rule final [where sW = s])
               (use g_keep [OF nmx] vs s in \<open>simp_all add: V2_def V1\<close>)
          ultimately show ?thesis by (simp add: V2_def V1)
        qed
      qed
    qed
  qed
qed

lemma cluster_set_above:
  assumes lo: "0 < lo"
  shows "cluster_set lo {y \<in> R. x < y} i =
    (if i < x div lo then {}
     else if i = x div lo then {y \<in> cluster_set lo R i. x mod lo < y}
     else cluster_set lo R i)"
proof -
  have "x < i * lo + l \<longleftrightarrow> x div lo < i \<or> (x div lo = i \<and> x mod lo < l)"
    if "0 \<le> l" "l < lo" for l
    using key_less [OF lo _ _ that, of "x mod lo" "x div lo" i] lo by simp
  then show ?thesis by (auto simp: cluster_set_def)
qed

lemma cluster_set_below:
  assumes lo: "0 < lo"
  shows "cluster_set lo {y \<in> R. y < x} i =
    (if x div lo < i then {}
     else if i = x div lo then {y \<in> cluster_set lo R i. y < x mod lo}
     else cluster_set lo R i)"
proof -
  have "i * lo + l < x \<longleftrightarrow> i < x div lo \<or> (i = x div lo \<and> l < x mod lo)"
    if "0 \<le> l" "l < lo" for l
    using key_less [OF lo that, of "x mod lo" i "x div lo"] lo by simp
  then show ?thesis by (auto simp: cluster_set_def)
qed

lemma least_of_Collect_empty:
  "least_of {y \<in> S. P y} m \<Longrightarrow> S \<subseteq> {0..<u} \<Longrightarrow> m = -1 \<longleftrightarrow> {y \<in> S. P y} = {}"
  by (rule least_of_empty [where u = u]) auto

lemma greatest_of_Collect_empty:
  "greatest_of {y \<in> S. P y} m \<Longrightarrow> S \<subseteq> {0..<u} \<Longrightarrow> m = -1 \<longleftrightarrow> {y \<in> S. P y} = {}"
  by (rule greatest_of_empty [where u = u]) auto

lemma least_of_mem: "least_of S m \<Longrightarrow> S \<noteq> {} \<Longrightarrow> m \<in> S"
  by (simp add: least_of_def)

lemma greatest_of_mem: "greatest_of S m \<Longrightarrow> S \<noteq> {} \<Longrightarrow> m \<in> S"
  by (simp add: greatest_of_def)

theorem successor_correct:
  "valid V S \<Longrightarrow> 0 \<le> x \<Longrightarrow> x < u_of V \<Longrightarrow>
     \<exists>r. vEB_successor V x = Some r \<and> least_of {y \<in> S. x < y} r"
proof (induction V arbitrary: S x rule: measure_induct_rule [where f = size])
  case (less V)
  note v = \<open>valid V S\<close> and x = \<open>0 \<le> x\<close> \<open>x < u_of V\<close>
  have sub: "S \<subseteq> {0..<u_of V}" using v by (rule valid_subset)
  show ?case
  proof (cases "u_of V \<le> 2")
    case True
    then have u2: "u_of V = 2" using valid_leaf [OF v] by simp
    show ?thesis
    proof (cases "x = 0 \<and> max_of V = 1")
      case True
      then have "1 \<in> S" using valid_greatest [OF v] by (auto simp: greatest_of_def split: if_splits)
      then have "{y \<in> S. x < y} = {1}" using sub u2 True by auto
      then have "least_of {y \<in> S. x < y} 1" by (simp add: least_of_def)
      moreover have "vEB_successor V x = Some 1"
        using True u2 by (subst vEB_successor.simps) simp
      ultimately show ?thesis by simp
    next
      case False
      have "{y \<in> S. x < y} = {}"
      proof (rule ccontr)
        assume "{y \<in> S. x < y} \<noteq> {}"
        then obtain y where y: "y \<in> S" "x < y" by auto
        then have "x = 0" "y = 1" using sub u2 x by auto
        moreover have "y \<le> max_of V" "max_of V \<in> S"
          using valid_greatest [OF v] y(1) by (auto simp: greatest_of_def split: if_splits)
        ultimately show False using False sub u2 by auto
      qed
      then have "least_of {y \<in> S. x < y} (-1)" by (simp add: least_of_def)
      moreover have "vEB_successor V x = Some (-1)"
        using False u2 by (subst vEB_successor.simps) auto
      ultimately show ?thesis by simp
    qed
  next
    case False
    then have u: "2 < u_of V" by simp
    let ?lo = "lower_sqrt_of V" and ?up = "upper_sqrt_of V"
    let ?R = "S - {min_of V}"
    have sq: "2 \<le> ?lo" "2 \<le> ?up" "?lo * ?up = u_of V"
      using valid_sqrt [OF v u] by simp_all
    then have lo0: "0 < ?lo" by simp
    show ?thesis
    proof (cases "min_of V \<noteq> -1 \<and> x < min_of V")
      case True
      then have "S \<noteq> {}" using valid_min_empty [OF v] by simp
      then have "min_of V \<in> S" "\<forall>y\<in>S. min_of V \<le> y"
        using valid_least [OF v] by (simp_all add: least_of_def)
      then have "least_of {y \<in> S. x < y} (min_of V)"
        using True by (auto simp: least_of_def)
      moreover have "vEB_successor V x = Some (min_of V)"
        using True u by (subst vEB_successor.simps) simp
      ultimately show ?thesis by simp
    next
      case nmin: False
      let ?T = "{y \<in> ?R. x < y}"
      have T: "{y \<in> S. x < y} = ?T"
      proof (cases "S = {}")
        case False
        then have "min_of V \<in> S" using valid_least [OF v] by (simp add: least_of_def)
        then have "min_of V \<le> x" using nmin sub by auto
        then show ?thesis by auto
      qed simp
      define h where "h = x div ?lo"
      define l where "l = x mod ?lo"
      have hl: "high V x = Some h" "low V x = Some l"
        using high_low [of V x] lo0 x by (simp_all add: h_def l_def)
      have hr: "0 \<le> h" "h < ?up"
        using high_range [of ?lo x ?up] lo0 x sq by (simp_all add: h_def)
      have lr: "0 \<le> l" "l < ?lo" using lo0 by (simp_all add: l_def)
      obtain c where c: "cluster_at V h = Some c" "u_of c = ?lo"
        "valid c (cluster_set ?lo ?R h)"
        using valid_cluster [OF v u hr] by auto
      obtain s where s: "summary_of V = Some s" "u_of s = ?up"
        "valid s (summary_set ?lo ?R)"
        using valid_summary [OF v u] by auto
      let ?A = "{y \<in> cluster_set ?lo ?R h. l < y}"
      have csT: "cluster_set ?lo ?T i =
        (if i < h then {} else if i = h then ?A else cluster_set ?lo ?R i)" for i
        using cluster_set_above [OF lo0, of ?R x i] by (simp add: h_def l_def)
      show ?thesis
      proof (cases "max_of c \<noteq> -1 \<and> l < max_of c")
        case True
        then have "cluster_set ?lo ?R h \<noteq> {}" using valid_max_empty [OF c(3)] by simp
        then have "max_of c \<in> cluster_set ?lo ?R h"
          using valid_greatest [OF c(3)] by (simp add: greatest_of_def)
        then have Ane: "?A \<noteq> {}" using True by auto
        have "size c < size V" using c(1) by (rule cluster_at_size)
        from less.IH [OF this c(3), of l] lr c(2)
        obtain off where off: "vEB_successor c l = Some off" "least_of ?A off"
          by auto
        have hin: "h \<in> summary_set ?lo ?T" using Ane csT [of h] by (simp add: summary_set_iff)
        have "h \<le> i" if "i \<in> summary_set ?lo ?T" for i
          using that csT [of i] by (auto simp: summary_set_iff split: if_splits)
        then have ls: "least_of (summary_set ?lo ?T) h" using hin by (auto simp: least_of_def)
        have Tne: "?T \<noteq> {}" using hin summary_set_eq_empty [OF lo0, of ?T] by auto
        have "least_of (cluster_set ?lo ?T h) off" using off(2) csT [of h] by simp
        from least_join [OF lo0 Tne ls this]
        have "least_of {y \<in> S. x < y} (h * ?lo + off)" unfolding T .
        moreover have "vEB_successor V x = Some (idx V h off)"
          using u nmin hl c(1) True off(1)
          by (subst vEB_successor.simps) (auto simp: vEB_max_def)
        ultimately show ?thesis by (simp add: idx_def)
      next
        case False
        have Ae: "?A = {}"
        proof (cases "cluster_set ?lo ?R h = {}")
          case ne: False
          then have "max_of c \<noteq> -1" "\<forall>y\<in>cluster_set ?lo ?R h. y \<le> max_of c"
            using valid_max_empty [OF c(3)] valid_greatest [OF c(3)]
            by (simp_all add: greatest_of_def)
          then show ?thesis using False by fastforce
        qed simp
        let ?B = "{i \<in> summary_set ?lo ?R. h < i}"
        have ssT: "summary_set ?lo ?T = ?B"
          using csT Ae by (auto simp: summary_set_iff split: if_splits)
        have "size s < size V" using s(1) by (rule summary_size)
        from less.IH [OF this s(3), of h] hr s(2)
        obtain sc where sc: "vEB_successor s h = Some sc" "least_of ?B sc"
          by auto
        have sce: "sc = -1 \<longleftrightarrow> ?B = {}"
          using least_of_Collect_empty [OF sc(2) valid_subset [OF s(3)]] .
        show ?thesis
        proof (cases "sc = -1")
          case True
          then have "?T = {}" using sce ssT summary_set_eq_empty [OF lo0, of ?T] by simp
          then have "least_of {y \<in> S. x < y} (-1)" unfolding T by (simp add: least_of_def)
          moreover have "vEB_successor V x = Some (-1)"
            using u nmin hl c(1) False s(1) sc(1) True
            by (subst vEB_successor.simps) (auto simp: vEB_max_def)
          ultimately show ?thesis by simp
        next
          case scn: False
          then have Bne: "?B \<noteq> {}" using sce by blast
          have scB: "sc \<in> ?B" using sc(2) Bne by (rule least_of_mem)
          then have scr: "0 \<le> sc" "sc < ?up" "h < sc"
            using valid_subset [OF s(3)] s(2) by auto
          obtain c' where c': "cluster_at V sc = Some c'"
            "valid c' (cluster_set ?lo ?R sc)"
            using valid_cluster [OF v u scr(1,2)] by auto
          have Tne: "?T \<noteq> {}" using Bne ssT summary_set_eq_empty [OF lo0, of ?T] by auto
          have ls: "least_of (summary_set ?lo ?T) sc" using sc(2) ssT by simp
          have "least_of (cluster_set ?lo ?T sc) (min_of c')"
            using valid_least [OF c'(2)] csT [of sc] scr(3) by simp
          from least_join [OF lo0 Tne ls this]
          have "least_of {y \<in> S. x < y} (sc * ?lo + min_of c')" unfolding T .
          moreover have "vEB_successor V x = Some (idx V sc (vEB_min c'))"
            using u nmin hl c(1) False s(1) sc(1) scn c'(1)
            by (subst vEB_successor.simps) (auto simp: vEB_max_def)
          ultimately show ?thesis by (simp add: idx_def vEB_min_def)
        qed
      qed
    qed
  qed
qed

theorem predecessor_correct:
  "valid V S \<Longrightarrow> 0 \<le> x \<Longrightarrow> x < u_of V \<Longrightarrow>
     \<exists>r. vEB_predecessor V x = Some r \<and> greatest_of {y \<in> S. y < x} r"
proof (induction V arbitrary: S x rule: measure_induct_rule [where f = size])
  case (less V)
  note v = \<open>valid V S\<close> and x = \<open>0 \<le> x\<close> \<open>x < u_of V\<close>
  have sub: "S \<subseteq> {0..<u_of V}" using v by (rule valid_subset)
  show ?case
  proof (cases "u_of V \<le> 2")
    case True
    then have u2: "u_of V = 2" using valid_leaf [OF v] by simp
    show ?thesis
    proof (cases "x = 1 \<and> min_of V = 0")
      case True
      then have "0 \<in> S" using valid_least [OF v] by (auto simp: least_of_def split: if_splits)
      then have "{y \<in> S. y < x} = {0}" using sub u2 True by auto
      then have "greatest_of {y \<in> S. y < x} 0" by (simp add: greatest_of_def)
      moreover have "vEB_predecessor V x = Some 0"
        using True u2 by (subst vEB_predecessor.simps) simp
      ultimately show ?thesis by simp
    next
      case False
      have "{y \<in> S. y < x} = {}"
      proof (rule ccontr)
        assume "{y \<in> S. y < x} \<noteq> {}"
        then obtain y where y: "y \<in> S" "y < x" by auto
        then have "x = 1" "y = 0" using sub u2 x by auto
        moreover have "min_of V \<le> y" "min_of V \<in> S"
          using valid_least [OF v] y(1) by (auto simp: least_of_def split: if_splits)
        ultimately show False using False sub u2 by auto
      qed
      then have "greatest_of {y \<in> S. y < x} (-1)" by (simp add: greatest_of_def)
      moreover have "vEB_predecessor V x = Some (-1)"
        using False u2 by (subst vEB_predecessor.simps) auto
      ultimately show ?thesis by simp
    qed
  next
    case False
    then have u: "2 < u_of V" by simp
    let ?lo = "lower_sqrt_of V" and ?up = "upper_sqrt_of V"
    let ?R = "S - {min_of V}"
    have sq: "2 \<le> ?lo" "2 \<le> ?up" "?lo * ?up = u_of V"
      using valid_sqrt [OF v u] by simp_all
    then have lo0: "0 < ?lo" by simp
    show ?thesis
    proof (cases "max_of V \<noteq> -1 \<and> x > max_of V")
      case True
      then have "S \<noteq> {}" using valid_max_empty [OF v] by simp
      then have "max_of V \<in> S" "\<forall>y\<in>S. y \<le> max_of V"
        using valid_greatest [OF v] by (simp_all add: greatest_of_def)
      then have "greatest_of {y \<in> S. y < x} (max_of V)"
        using True by (auto simp: greatest_of_def)
      moreover have "vEB_predecessor V x = Some (max_of V)"
        using True u by (subst vEB_predecessor.simps) simp
      ultimately show ?thesis by simp
    next
      case nmax: False
      define T where "T = {y \<in> ?R. y < x}"
      define m where "m \<longleftrightarrow> min_of V \<noteq> -1 \<and> x > min_of V"
      have mn_le: "\<forall>y\<in>S. min_of V \<le> y"
        using valid_least [OF v] by (auto simp: least_of_def split: if_splits)
      have T: "{y \<in> S. y < x} = (if m then insert (min_of V) T else T)"
      proof (cases "S = {}")
        case True
        then show ?thesis using valid_min_empty [OF v] by (simp add: T_def m_def)
      next
        case False
        then have "min_of V \<in> S" "min_of V \<noteq> -1"
          using valid_least [OF v] valid_min_empty [OF v] by (simp_all add: least_of_def)
        then show ?thesis by (auto simp: T_def m_def)
      qed
      have from_T: "greatest_of {y \<in> S. y < x} g" if "greatest_of T g" "T \<noteq> {}" for g
      proof (cases m)
        case True
        have "greatest_of (insert (min_of V) T) g"
          using that
        proof (rule greatest_of_insert_least)
          show "\<forall>y\<in>T. min_of V \<le> y" using mn_le by (auto simp: T_def)
        qed
        then show ?thesis unfolding T using True by simp
      next
        case False
        then show ?thesis unfolding T using that by simp
      qed
      have no_T: "greatest_of {y \<in> S. y < x} (if m then min_of V else -1)" if "T = {}"
        unfolding T that by (simp add: greatest_of_def)
      define h where "h = x div ?lo"
      define l where "l = x mod ?lo"
      have hl: "high V x = Some h" "low V x = Some l"
        using high_low [of V x] lo0 x by (simp_all add: h_def l_def)
      have hr: "0 \<le> h" "h < ?up"
        using high_range [of ?lo x ?up] lo0 x sq by (simp_all add: h_def)
      have lr: "0 \<le> l" "l < ?lo" using lo0 by (simp_all add: l_def)
      obtain c where c: "cluster_at V h = Some c" "u_of c = ?lo"
        "valid c (cluster_set ?lo ?R h)"
        using valid_cluster [OF v u hr] by auto
      obtain s where s: "summary_of V = Some s" "u_of s = ?up"
        "valid s (summary_set ?lo ?R)"
        using valid_summary [OF v u] by auto
      let ?A = "{y \<in> cluster_set ?lo ?R h. y < l}"
      have csT: "cluster_set ?lo T i =
        (if h < i then {} else if i = h then ?A else cluster_set ?lo ?R i)" for i
        using cluster_set_below [OF lo0, of ?R x i] by (simp add: h_def l_def T_def)
      show ?thesis
      proof (cases "min_of c \<noteq> -1 \<and> l > min_of c")
        case True
        then have "cluster_set ?lo ?R h \<noteq> {}" using valid_min_empty [OF c(3)] by simp
        then have "min_of c \<in> cluster_set ?lo ?R h"
          by (rule least_of_mem [OF valid_least [OF c(3)]])
        then have Ane: "?A \<noteq> {}" using True by auto
        have "size c < size V" using c(1) by (rule cluster_at_size)
        from less.IH [OF this c(3), of l] lr c(2)
        obtain off where off: "vEB_predecessor c l = Some off" "greatest_of ?A off"
          by auto
        have hin: "h \<in> summary_set ?lo T" using Ane csT [of h] by (simp add: summary_set_iff)
        have "i \<le> h" if "i \<in> summary_set ?lo T" for i
          using that csT [of i] by (auto simp: summary_set_iff split: if_splits)
        then have ls: "greatest_of (summary_set ?lo T) h" using hin by (auto simp: greatest_of_def)
        have Tne: "T \<noteq> {}" using hin summary_set_eq_empty [OF lo0, of T] by auto
        have "greatest_of (cluster_set ?lo T h) off" using off(2) csT [of h] by simp
        from from_T [OF greatest_join [OF lo0 Tne ls this] Tne]
        have "greatest_of {y \<in> S. y < x} (h * ?lo + off)" .
        moreover have "vEB_predecessor V x = Some (idx V h off)"
          using u nmax hl c(1) True off(1)
          by (subst vEB_predecessor.simps) (auto simp: vEB_min_def)
        ultimately show ?thesis by (simp add: idx_def)
      next
        case False
        have Ae: "?A = {}"
        proof (cases "cluster_set ?lo ?R h = {}")
          case ne: False
          then have "min_of c \<noteq> -1" "\<forall>y\<in>cluster_set ?lo ?R h. min_of c \<le> y"
            using valid_min_empty [OF c(3)] valid_least [OF c(3)]
            by (simp_all add: least_of_def)
          then show ?thesis using False by fastforce
        qed simp
        let ?B = "{i \<in> summary_set ?lo ?R. i < h}"
        have ssT: "summary_set ?lo T = ?B"
          using csT Ae by (auto simp: summary_set_iff split: if_splits)
        have "size s < size V" using s(1) by (rule summary_size)
        from less.IH [OF this s(3), of h] hr s(2)
        obtain pc where pc: "vEB_predecessor s h = Some pc" "greatest_of ?B pc"
          by auto
        have pce: "pc = -1 \<longleftrightarrow> ?B = {}"
          using greatest_of_Collect_empty [OF pc(2) valid_subset [OF s(3)]] .
        show ?thesis
        proof (cases "pc = -1")
          case True
          then have "T = {}" using pce ssT summary_set_eq_empty [OF lo0, of T] by simp
          from no_T [OF this]
          have "greatest_of {y \<in> S. y < x} (if m then min_of V else -1)" .
          moreover have "vEB_predecessor V x = Some (if m then min_of V else -1)"
            using u nmax hl c(1) False s(1) pc(1) True
            by (subst vEB_predecessor.simps) (auto simp: vEB_min_def m_def)
          ultimately show ?thesis by simp
        next
          case pcn: False
          then have Bne: "?B \<noteq> {}" using pce by blast
          have pcB: "pc \<in> ?B" using pc(2) Bne by (rule greatest_of_mem)
          then have pcr: "0 \<le> pc" "pc < ?up" "pc < h"
            using valid_subset [OF s(3)] s(2) by auto
          obtain c' where c': "cluster_at V pc = Some c'"
            "valid c' (cluster_set ?lo ?R pc)"
            using valid_cluster [OF v u pcr(1,2)] by auto
          have Tne: "T \<noteq> {}" using Bne ssT summary_set_eq_empty [OF lo0, of T] by auto
          have ls: "greatest_of (summary_set ?lo T) pc" using pc(2) ssT by simp
          have "greatest_of (cluster_set ?lo T pc) (max_of c')"
            using valid_greatest [OF c'(2)] csT [of pc] pcr(3) by simp
          from from_T [OF greatest_join [OF lo0 Tne ls this] Tne]
          have "greatest_of {y \<in> S. y < x} (pc * ?lo + max_of c')" .
          moreover have "vEB_predecessor V x = Some (idx V pc (vEB_max c'))"
            using u nmax hl c(1) False s(1) pc(1) pcn c'(1)
            by (subst vEB_predecessor.simps) (auto simp: vEB_min_def)
          ultimately show ?thesis by (simp add: idx_def vEB_max_def)
        qed
      qed
    qed
  qed
qed

lemma pow2_log2:
  "2 \<le> U \<Longrightarrow> U AND (U - 1) = 0 \<Longrightarrow> U = 2 ^ nat (log2_int U)"
proof (induction U rule: log2_int.induct)
  case (1 U)
  show ?case
  proof (cases "U = 2")
    case True
    have "log2_int 2 = 1" by (subst log2_int.simps, subst log2_int.simps) simp
    then show ?thesis using True by simp
  next
    case False
    then have U3: "3 \<le> U" using "1.prems" by simp
    let ?k = "U div 2"
    have k: "2 \<le> ?k \<or> (?k = 1 \<and> odd U)" using U3 by presburger
    have rec: "U AND (U - 1) = of_bool (odd U \<and> odd (U - 1)) + 2 * (?k AND ((U - 1) div 2))"
      by (rule and_int_rec)
    have ev: "even U"
    proof (rule ccontr)
      assume "odd U"
      then have "(U - 1) div 2 = ?k" by presburger
      then have "U AND (U - 1) = 2 * ?k" using rec \<open>odd U\<close> by simp
      then show False using "1.prems" U3 by simp
    qed
    then have "(U - 1) div 2 = ?k - 1" by presburger
    then have "?k AND (?k - 1) = 0" using rec ev "1.prems" by simp
    moreover have k2: "2 \<le> ?k" using k ev by simp
    ultimately have "?k = 2 ^ nat (log2_int ?k)" using "1.IH" U3 by simp
    moreover have "log2_int U = 1 + log2_int ?k" using U3 by (subst log2_int.simps) simp
    moreover have "U = 2 * ?k" using ev by simp
    ultimately show ?thesis
      using log2_int_nonneg [of ?k]
      by (simp add: nat_add_distrib)
  qed
qed

lemma those_map_const:
  "those (map (\<lambda>i. r) xs) = Some cs \<Longrightarrow> length cs = length xs \<and> (\<forall>c\<in>set cs. r = Some c)"
  by (induction xs arbitrary: cs) (auto split: option.splits)

lemma those_map_Some: "those (map (\<lambda>i. Some c) xs) = Some (replicate (length xs) c)"
  by (induction xs) auto

lemma create_sqrt:
  assumes "2 < U" "U AND (U - 1) = 0"
  defines "lg \<equiv> log2_int U"
  shows "(2::int) \<le> 2 ^ nat (lg div 2)" "(2::int) \<le> 2 ^ nat (lg - lg div 2)"
    "(2::int) ^ nat (lg div 2) * 2 ^ nat (lg - lg div 2) = U"
proof -
  have U: "U = 2 ^ nat lg" unfolding lg_def using assms(1,2) by (intro pow2_log2) simp_all
  have "4 \<le> U"
  proof (rule ccontr)
    assume "\<not> 4 \<le> U"
    then have "U = 3" using assms(1) by simp
    then show False using assms(2) by simp
  qed
  then have lg2: "2 \<le> lg" unfolding lg_def by (rule log2_int_ge2)
  have a: "1 \<le> nat (lg div 2)" and b: "1 \<le> nat (lg - lg div 2)" using lg2 by linarith+
  show "(2::int) \<le> 2 ^ nat (lg div 2)"
    using power_increasing [OF a, of "2::int"] by simp
  show "(2::int) \<le> 2 ^ nat (lg - lg div 2)"
    using power_increasing [OF b, of "2::int"] by simp
  have "nat (lg div 2) + nat (lg - lg div 2) = nat lg" using lg2 by linarith
  then show "(2::int) ^ nat (lg div 2) * 2 ^ nat (lg - lg div 2) = U"
    by (subst U) (simp flip: power_add)
qed

theorem create_correct: "vEB_create U = Some V \<Longrightarrow> valid V {} \<and> u_of V = U"
proof (induction U arbitrary: V rule: measure_induct_rule [where f = nat])
  case (less U)
  from less.prems have U2: "2 \<le> U" and p2: "U AND (U - 1) = 0"
    by (subst (asm) vEB_create.simps; simp split: if_splits)+
  show ?case
  proof (cases "U \<le> 2")
    case True
    then have "V = vEBNode U (-1) (-1) None [] 0 0"
      using less.prems U2 p2 by (subst (asm) vEB_create.simps) simp
    then show ?thesis using True U2 by (subst valid.simps) (simp add: least_of_def greatest_of_def)
  next
    case False
    define lg where "lg = log2_int U"
    define lo :: int where "lo = 2 ^ nat (lg div 2)"
    define up :: int where "up = 2 ^ nat (lg - lg div 2)"
    have sq: "2 \<le> lo" "2 \<le> up" "lo * up = U"
      using create_sqrt [of U] False p2 by (simp_all add: lo_def up_def lg_def)
    have lt: "lo < U" "up < U"
      using create_sqrt_less [of U] False by (simp_all add: lo_def up_def lg_def)
    have body: "(vEB_create up \<bind> (\<lambda>summary.
        those (map (\<lambda>i. vEB_create lo) [0..<nat up]) \<bind> (\<lambda>cluster.
        Some (vEBNode U (-1) (-1) (Some summary) cluster lo up)))) = Some V"
      using less.prems U2 p2 False
      by (subst (asm) vEB_create.simps)
         (simp add: Let_def push_bit_eq_mult lo_def up_def lg_def)
    then obtain s cs where s: "vEB_create up = Some s"
      and cs: "those (map (\<lambda>i. vEB_create lo) [0..<nat up]) = Some cs"
      and V: "V = vEBNode U (-1) (-1) (Some s) cs lo up"
      by (auto split: bind_splits)
    have vs: "valid s {} \<and> u_of s = up"
      using lt sq by (intro less.IH [OF _ s]) simp
    have len: "length cs = nat up" and each: "\<forall>c\<in>set cs. vEB_create lo = Some c"
      using those_map_const [OF cs] by simp_all
    have vc: "valid c {} \<and> u_of c = lo" if "c \<in> set cs" for c
    proof -
      have c: "vEB_create lo = Some c" using each that by simp
      show ?thesis using lt sq by (intro less.IH [OF _ c]) simp
    qed
    show ?thesis
      unfolding V using False sq vs vc len
      by (subst valid.simps) (simp add: least_of_def greatest_of_def)
  qed
qed

lemma log2_int_pow2: "log2_int (2 ^ n) = int n"
proof (induction n)
  case 0
  show ?case by (subst log2_int.simps) simp
next
  case (Suc n)
  have "\<not> (2::int) * 2 ^ n \<le> 1" using one_le_power [of "2::int" n] by linarith
  then show ?case using Suc by (subst log2_int.simps) simp
qed

lemma pow2_and: "(2::int) ^ n AND (2 ^ n - 1) = 0"
proof -
  have "(2::int) ^ n AND mask n = 0"
    by (simp add: and.commute [of "2 ^ n"] and_exp_eq_0_iff_not_bit bit_mask_iff)
  then show ?thesis by (simp add: mask_eq_exp_minus_1)
qed

theorem create_total: "1 \<le> n \<Longrightarrow> \<exists>V. vEB_create (2 ^ n) = Some V"
proof (induction n rule: less_induct)
  case (less n)
  have ge: "(2::int) \<le> 2 ^ n" using power_increasing [OF less.prems, of "2::int"] by simp
  show ?case
  proof (cases "n = 1")
    case True
    then show ?thesis by (subst vEB_create.simps) simp
  next
    case False
    then have n2: "2 \<le> n" using less.prems by simp
    then have "(2::int) ^ 2 \<le> 2 ^ n" by (intro power_increasing) simp_all
    then have gt: "\<not> (2::int) ^ n \<le> 2" by simp
    have a: "1 \<le> n div 2" "n div 2 < n" and b: "1 \<le> n - n div 2" "n - n div 2 < n"
      using n2 by linarith+
    obtain s where s: "vEB_create (2 ^ (n - n div 2)) = Some s" using less.IH [OF b(2) b(1)] by auto
    obtain c where c: "vEB_create (2 ^ (n div 2)) = Some c" using less.IH [OF a(2) a(1)] by auto
    have e1: "nat (int n div 2) = n div 2" by linarith
    have e2: "nat (int n - int n div 2) = n - n div 2" by linarith
    show ?thesis
      using ge gt s c
      by (subst vEB_create.simps)
         (simp add: pow2_and log2_int_pow2 Let_def push_bit_eq_mult e1 e2 those_map_Some)
  qed
qed

section \<open>Well-formed trees\<close>

text \<open>
  The shape of a tree and the range of its fields; every call keeps them, also a call
  of \<^verbatim>\<open>vEB_delete\<close> with a value that is not stored.
\<close>

lemma wf_range:
  "well_formed V \<Longrightarrow> -1 \<le> min_of V \<and> min_of V < u_of V \<and> -1 \<le> max_of V \<and> max_of V < u_of V"
  by (subst (asm) well_formed.simps) simp

lemma wf_leaf:
  "well_formed V \<Longrightarrow> u_of V \<le> 2 \<Longrightarrow>
     u_of V = 2 \<and> summary_of V = None \<and> cluster_of V = [] \<and>
     lower_sqrt_of V = 0 \<and> upper_sqrt_of V = 0"
  by (subst (asm) well_formed.simps) simp

lemma wf_sqrt:
  "well_formed V \<Longrightarrow> 2 < u_of V \<Longrightarrow>
     2 \<le> lower_sqrt_of V \<and> 2 \<le> upper_sqrt_of V \<and>
     lower_sqrt_of V * upper_sqrt_of V = u_of V \<and>
     int (length (cluster_of V)) = upper_sqrt_of V"
  by (subst (asm) well_formed.simps) simp

lemma wf_summary:
  "well_formed V \<Longrightarrow> 2 < u_of V \<Longrightarrow>
     \<exists>s. summary_of V = Some s \<and> u_of s = upper_sqrt_of V \<and> well_formed s"
  by (subst (asm) well_formed.simps) (auto split: option.splits)

lemma wf_cluster_mem:
  "well_formed V \<Longrightarrow> 2 < u_of V \<Longrightarrow> c \<in> set (cluster_of V) \<Longrightarrow>
     u_of c = lower_sqrt_of V \<and> well_formed c"
  by (subst (asm) well_formed.simps) simp

lemma wf_u: "well_formed V \<Longrightarrow> 2 \<le> u_of V"
  by (subst (asm) well_formed.simps) (simp split: if_splits)

lemma cluster_at_mem: "cluster_at V i = Some c \<Longrightarrow> c \<in> set (cluster_of V)"
  by (auto simp: cluster_at_def split: if_splits)

lemma cluster_at_range:
  "cluster_at V i = Some c \<Longrightarrow> 0 \<le> i \<and> i < int (length (cluster_of V))"
  by (auto simp: cluster_at_def split: if_splits)

lemma wf_cluster:
  assumes "well_formed V" "2 < u_of V" "0 \<le> i" "i < upper_sqrt_of V"
  shows "\<exists>c. cluster_at V i = Some c \<and> u_of c = lower_sqrt_of V \<and> well_formed c"
proof -
  have "int (length (cluster_of V)) = upper_sqrt_of V" using assms(1,2) by (simp add: wf_sqrt)
  then have "cluster_at V i = Some (cluster_of V ! nat i)" "nat i < length (cluster_of V)"
    using assms(3,4) by (simp_all add: cluster_at_def)
  then show ?thesis using wf_cluster_mem [OF assms(1,2) nth_mem, of "nat i"] by blast
qed

text \<open>Changing the minimum and the maximum within the universe keeps a node well formed.\<close>

lemma wf_same_children:
  assumes "well_formed V"
    and "u_of V' = u_of V" "lower_sqrt_of V' = lower_sqrt_of V"
      "upper_sqrt_of V' = upper_sqrt_of V" "summary_of V' = summary_of V"
      "cluster_of V' = cluster_of V"
    and "-1 \<le> min_of V'" "min_of V' < u_of V" "-1 \<le> max_of V'" "max_of V' < u_of V"
  shows "well_formed V'"
proof (cases "u_of V \<le> 2")
  case True
  then show ?thesis
    using wf_leaf [OF assms(1) True] assms(2-) by (subst well_formed.simps) simp
next
  case False
  then have u: "2 < u_of V" by simp
  obtain s where s: "summary_of V = Some s" "u_of s = upper_sqrt_of V" "well_formed s"
    using wf_summary [OF assms(1) u] by auto
  show ?thesis
    using u s assms(2-) wf_sqrt [OF assms(1) u] wf_cluster_mem [OF assms(1) u]
    by (subst well_formed.simps) simp
qed

lemma wf_update:
  assumes w: "well_formed V" and u: "2 < u_of V"
    and f: "u_of V' = u_of V" "lower_sqrt_of V' = lower_sqrt_of V"
      "upper_sqrt_of V' = upper_sqrt_of V" "summary_of V' = Some s'"
      "cluster_of V' = (cluster_of V)[nat h := c']"
    and r: "-1 \<le> min_of V'" "min_of V' < u_of V" "-1 \<le> max_of V'" "max_of V' < u_of V"
    and s': "u_of s' = upper_sqrt_of V" "well_formed s'"
    and c': "u_of c' = lower_sqrt_of V" "well_formed c'"
  shows "well_formed V'"
proof -
  have "u_of c = lower_sqrt_of V' \<and> well_formed c" if "c \<in> set (cluster_of V')" for c
  proof -
    have "c \<in> insert c' (set (cluster_of V))"
      using that f(5) set_update_subset_insert [of "cluster_of V" "nat h" c'] by auto
    then show ?thesis using c' f(2) wf_cluster_mem [OF w u] by auto
  qed
  then show ?thesis
    using u f r s' wf_sqrt [OF w u] by (subst well_formed.simps) simp
qed

lemma idx_range:
  assumes "0 < lo" "0 \<le> h" "h < up" "-1 \<le> off" "off < lo"
  shows "-1 \<le> h * lo + off \<and> h * lo + off < lo * (up::int)"
proof
  have "0 \<le> h * lo" using assms by simp
  then show "-1 \<le> h * lo + off" using assms by linarith
  have "h + 1 \<le> up" using assms by simp
  then have "(h + 1) * lo \<le> up * lo" using assms(1) by (intro mult_right_mono) simp_all
  then show "h * lo + off < lo * up" using assms by (simp add: algebra_simps)
qed

lemma wf_member_total:
  "well_formed V \<Longrightarrow> 0 \<le> x \<Longrightarrow> x < u_of V \<Longrightarrow> \<exists>b. vEB_member V x = Some b"
proof (induction V arbitrary: x rule: measure_induct_rule [where f = size])
  case (less V)
  show ?case
  proof (cases "x = min_of V \<or> x = max_of V \<or> u_of V \<le> 2")
    case True
    then show ?thesis by (subst vEB_member.simps) auto
  next
    case False
    then have u: "2 < u_of V" by simp
    let ?lo = "lower_sqrt_of V"
    have sq: "2 \<le> ?lo" "?lo * upper_sqrt_of V = u_of V"
      using wf_sqrt [OF less.prems(1) u] by simp_all
    have hr: "0 \<le> x div ?lo" "x div ?lo < upper_sqrt_of V"
      using high_range [of ?lo x "upper_sqrt_of V"] sq less.prems by simp_all
    obtain c where c: "cluster_at V (x div ?lo) = Some c" "u_of c = ?lo" "well_formed c"
      using wf_cluster [OF less.prems(1) u hr] by auto
    have "\<exists>b. vEB_member c (x mod ?lo) = Some b"
      using c sq by (intro less.IH) (simp_all add: cluster_at_size)
    then obtain b where b: "vEB_member c (x mod ?lo) = Some b" by auto
    have hl: "high V x = Some (x div ?lo)" "low V x = Some (x mod ?lo)"
      using high_low [of V x] sq less.prems by simp_all
    have "vEB_member V x = Some b"
      using False c(1) hl b by (subst vEB_member.simps) simp
    then show ?thesis by simp
  qed
qed

lemma member_min_max: "x = min_of V \<or> x = max_of V \<Longrightarrow> vEB_member V x = Some True"
  by (subst vEB_member.simps) simp

lemma member_in_cluster:
  assumes "2 < u_of V" "0 < lower_sqrt_of V" "0 \<le> x"
    and "cluster_at V (x div lower_sqrt_of V) = Some c"
    and "vEB_member c (x mod lower_sqrt_of V) = Some True"
  shows "vEB_member V x = Some True"
  using assms high_low [of V x] by (subst vEB_member.simps) simp

lemma cluster_at_update:
  "0 \<le> h \<Longrightarrow> h < int (length (cluster_of V)) \<Longrightarrow> cluster_of V' = (cluster_of V)[nat h := c] \<Longrightarrow>
     cluster_at V' h = Some c"
  by (simp add: cluster_at_def)

theorem wf_insert:
  "well_formed V \<Longrightarrow> 0 \<le> x \<Longrightarrow> x < u_of V \<Longrightarrow>
     \<exists>V'. vEB_insert V x = Some (OK, V') \<and> well_formed V' \<and> u_of V' = u_of V \<and>
          vEB_member V' x = Some True"
proof (induction V arbitrary: x rule: measure_induct_rule [where f = size])
  case (less V)
  note w = \<open>well_formed V\<close> and x = \<open>0 \<le> x\<close> \<open>x < u_of V\<close>
  obtain b where mem: "vEB_member V x = Some b" using wf_member_total [OF w x] by auto
  have r: "-1 \<le> min_of V" "min_of V < u_of V" "-1 \<le> max_of V" "max_of V < u_of V"
    using wf_range [OF w] by simp_all
  show ?case
  proof (cases b)
    case True
    then have "vEB_insert V x = Some (OK, V)"
      using x mem by (subst vEB_insert.simps) simp
    then show ?thesis using w mem True by simp
  next
    case nb: False
    have xm: "x \<noteq> min_of V" "x \<noteq> max_of V"
      using mem nb member_min_max [of x V] by auto
    show ?thesis
    proof (cases "min_of V = -1")
      case True
      then have "vEB_insert V x = Some (OK, vEB_empty_insert V x)"
        using x mem nb by (subst vEB_insert.simps) simp
      moreover have "well_formed (vEB_empty_insert V x)"
        using w by (rule wf_same_children) (use x in \<open>simp_all add: vEB_empty_insert_def\<close>)
      moreover have "vEB_member (vEB_empty_insert V x) x = Some True"
        by (rule member_min_max) (simp add: vEB_empty_insert_def)
      ultimately show ?thesis by (simp add: vEB_empty_insert_def)
    next
      case mn: False
      define x1 where "x1 = (if x < min_of V then min_of V else x)"
      define V1 where "V1 = (if x < min_of V then set_min V x else V)"
      have pair: "(if x < min_of V then (min_of V, set_min V x) else (x, V)) = (x1, V1)"
        by (simp add: x1_def V1_def)
      have V1: "u_of V1 = u_of V" "lower_sqrt_of V1 = lower_sqrt_of V"
        "upper_sqrt_of V1 = upper_sqrt_of V" "summary_of V1 = summary_of V"
        "cluster_of V1 = cluster_of V" "max_of V1 = max_of V"
        "min_of V1 = (if x < min_of V then x else min_of V)"
        by (simp_all add: V1_def)
      have x1r: "0 \<le> x1" "x1 < u_of V" using x r mn by (auto simp: x1_def)
      have mn1: "-1 \<le> min_of V1" "min_of V1 < u_of V" using x r by (auto simp: V1)
      have mx1: "-1 \<le> (if x1 > max_of V then x1 else max_of V)"
        "(if x1 > max_of V then x1 else max_of V) < u_of V"
        using x1r r by auto
      \<comment> \<open>when the new value is not the new minimum, it is the value stored below\<close>
      have x1x: "x1 = x" if "\<not> x < min_of V" using that by (simp add: x1_def)
      show ?thesis
      proof (cases "u_of V \<le> 2")
        case True
        let ?W = "if x1 > max_of V1 then set_max V1 x1 else V1"
        have "vEB_insert V x = Some (OK, ?W)"
          using x mem nb mn True V1(1) by (subst vEB_insert.simps) (simp add: pair)
        moreover have "well_formed ?W"
          using w by (rule wf_same_children) (use V1 mn1 mx1 in \<open>auto\<close>)
        moreover have "x = min_of ?W \<or> x = max_of ?W"
        proof (cases "x < min_of V")
          case True
          then show ?thesis by (simp add: V1)
        next
          case False
          have "u_of V = 2" using wf_leaf [OF w True] by simp
          then have "max_of V < x" using False xm r x mn by auto
          then show ?thesis using x1x [OF False] by (simp add: V1)
        qed
        ultimately show ?thesis using member_min_max [of x ?W] V1(1) by simp
      next
        case False
        then have u: "2 < u_of V" by simp
        let ?lo = "lower_sqrt_of V" and ?up = "upper_sqrt_of V"
        have sq: "2 \<le> ?lo" "2 \<le> ?up" "?lo * ?up = u_of V" "int (length (cluster_of V)) = ?up"
          using wf_sqrt [OF w u] by simp_all
        then have lo0: "0 < ?lo" by simp
        define h where "h = x1 div ?lo"
        define l where "l = x1 mod ?lo"
        have hl: "high V1 x1 = Some h" "low V1 x1 = Some l"
          using high_low [of V1 x1] lo0 x1r V1 by (simp_all add: h_def l_def)
        have hr: "0 \<le> h" "h < ?up"
          using high_range [of ?lo x1 ?up] lo0 x1r sq by (simp_all add: h_def)
        have lr: "0 \<le> l" "l < ?lo" using lo0 by (simp_all add: l_def)
        obtain c where c: "cluster_at V h = Some c" "u_of c = ?lo" "well_formed c"
          using wf_cluster [OF w u hr] by auto
        have c1: "cluster_at V1 h = Some c" using c(1) cluster_at_cong [OF V1(5)] by simp
        obtain s where s: "summary_of V = Some s" "u_of s = ?up" "well_formed s"
          using wf_summary [OF w u] by auto
        \<comment> \<open>the common end of both branches\<close>
        have final: "well_formed W \<and> u_of W = u_of V \<and> vEB_member W x = Some True"
          if W: "W = (if x1 > max_of V2 then set_max V2 x1 else V2)"
            and V2: "u_of V2 = u_of V" "lower_sqrt_of V2 = ?lo" "upper_sqrt_of V2 = ?up"
              "summary_of V2 = Some sW" "cluster_of V2 = (cluster_of V)[nat h := cW]"
              "min_of V2 = min_of V1" "max_of V2 = max_of V"
            and sW: "u_of sW = ?up" "well_formed sW"
            and cW: "u_of cW = ?lo" "well_formed cW" "vEB_member cW l = Some True"
          for W V2 sW cW
        proof -
          have Wf: "u_of W = u_of V" "lower_sqrt_of W = ?lo" "upper_sqrt_of W = ?up"
            "summary_of W = Some sW" "cluster_of W = (cluster_of V)[nat h := cW]"
            "min_of W = min_of V1"
            "max_of W = (if x1 > max_of V then x1 else max_of V)"
            by (simp_all add: W V2)
          have wfW: "well_formed W"
            using w u
          proof (rule wf_update [where h = h and s' = sW and c' = cW])
            show "- 1 \<le> max_of W" "max_of W < u_of V" using mx1 unfolding Wf by simp_all
          qed (use Wf sW cW mn1 in simp_all)
          have caW: "cluster_at W h = Some cW"
            using hr sq(4) Wf(5) by (intro cluster_at_update [of h V]) simp_all
          have "vEB_member W x = Some True"
          proof (cases "x < min_of V")
            case True
            then show ?thesis by (intro member_min_max) (simp add: Wf V1)
          next
            case False
            show ?thesis
            proof (rule member_in_cluster)
              show "cluster_at W (x div lower_sqrt_of W) = Some cW"
                using caW x1x [OF False] by (simp add: Wf h_def)
              show "vEB_member cW (x mod lower_sqrt_of W) = Some True"
                using cW(3) x1x [OF False] by (simp add: Wf l_def)
            qed (use u lo0 x in \<open>simp_all add: Wf\<close>)
          qed
          then show ?thesis using wfW by (simp add: Wf)
        qed
        show ?thesis
        proof (cases "min_of c = -1")
          case True
          have "size s < size V" using s(1) by (rule summary_size)
          from less.IH [OF this s(3), of h] hr s(2)
          obtain s' where s': "vEB_insert s h = Some (OK, s')" "well_formed s'" "u_of s' = u_of s"
            by auto
          define V2 where "V2 = set_cluster (set_summary V1 s') h (vEB_empty_insert c l)"
          define W where "W = (if x1 > max_of V2 then set_max V2 x1 else V2)"
          have "vEB_insert V x = Some (OK, W)"
            using x mem nb mn u V1(1,4) hl c1 True s(1) s'(1)
            by (subst vEB_insert.simps) (simp add: pair V2_def W_def)
          moreover have "well_formed W \<and> u_of W = u_of V \<and> vEB_member W x = Some True"
          proof (rule final [OF W_def, where sW = s' and cW = "vEB_empty_insert c l"])
            show "well_formed (vEB_empty_insert c l)"
              using c(3) by (rule wf_same_children)
                (use lr c(2) in \<open>simp_all add: vEB_empty_insert_def\<close>)
            show "vEB_member (vEB_empty_insert c l) l = Some True"
              by (rule member_min_max) (simp add: vEB_empty_insert_def)
          qed (use V1 s s' c in \<open>simp_all add: V2_def vEB_empty_insert_def\<close>)
          ultimately show ?thesis by simp
        next
          case False
          have "size c < size V" using c(1) by (rule cluster_at_size)
          from less.IH [OF this c(3), of l] lr c(2)
          obtain c' where c': "vEB_insert c l = Some (OK, c')" "well_formed c'" "u_of c' = u_of c"
            "vEB_member c' l = Some True"
            by auto
          define V2 where "V2 = set_cluster V1 h c'"
          define W where "W = (if x1 > max_of V2 then set_max V2 x1 else V2)"
          have "vEB_insert V x = Some (OK, W)"
            using x mem nb mn u V1(1,4) hl c1 False c'(1)
            by (subst vEB_insert.simps) (simp add: pair V2_def W_def)
          moreover have "well_formed W \<and> u_of W = u_of V \<and> vEB_member W x = Some True"
            by (rule final [OF W_def, where sW = s and cW = c'])
               (use V1 s c c' in \<open>simp_all add: V2_def\<close>)
          ultimately show ?thesis by simp
        qed
      qed
    qed
  qed
qed

theorem wf_delete:
  "well_formed V \<Longrightarrow> vEB_delete V x = Some (st, V') \<Longrightarrow> well_formed V' \<and> u_of V' = u_of V"
proof (induction V arbitrary: x st V' rule: measure_induct_rule [where f = size])
  case (less V)
  note w = \<open>well_formed V\<close> and d = \<open>vEB_delete V x = Some (st, V')\<close>
  have r: "-1 \<le> min_of V" "min_of V < u_of V" "-1 \<le> max_of V" "max_of V < u_of V"
    using wf_range [OF w] by simp_all
  have u2: "2 \<le> u_of V" using w by (rule wf_u)
  show ?case
  proof (cases "x < 0 \<or> u_of V \<le> x")
    case True
    then have "V' = V" using d by (subst (asm) vEB_delete.simps) auto
    then show ?thesis using w by simp
  next
    case inr: False
    then have x: "0 \<le> x" "x < u_of V" by simp_all
    show ?thesis
    proof (cases "min_of V = max_of V")
      case True
      then have "V' = set_max (set_min V (-1)) (-1)"
        using d x by (subst (asm) vEB_delete.simps) simp
      moreover have "well_formed (set_max (set_min V (-1)) (-1))"
        using w by (rule wf_same_children) (use u2 in simp_all)
      ultimately show ?thesis by simp
    next
      case neq: False
      show ?thesis
      proof (cases "u_of V = 2")
        case True
        define m where "m = (if x = 0 then 1 else (0::int))"
        have "V' = set_max (set_min V m) m"
          using d x neq True by (subst (asm) vEB_delete.simps) (auto simp: m_def Let_def)
        moreover have "well_formed (set_max (set_min V m) m)"
          using w by (rule wf_same_children) (use True in \<open>simp_all add: m_def\<close>)
        ultimately show ?thesis by simp
      next
        case nleaf: False
        then have u: "2 < u_of V" using u2 by simp
        let ?lo = "lower_sqrt_of V" and ?up = "upper_sqrt_of V"
        have sq: "2 \<le> ?lo" "2 \<le> ?up" "?lo * ?up = u_of V" "int (length (cluster_of V)) = ?up"
          using wf_sqrt [OF w u] by simp_all
        then have lo0: "0 < ?lo" by simp
        obtain s where s: "summary_of V = Some s" "u_of s = ?up" "well_formed s"
          using wf_summary [OF w u] by auto
        have cl: "u_of c = ?lo \<and> well_formed c" if "c \<in> set (cluster_of V)" for c
          using wf_cluster_mem [OF w u that] .
        have idxr: "-1 \<le> idx V i (k_of c) \<and> idx V i (k_of c) < u_of V"
          if "cluster_at W i = Some c" "cluster_of W = (cluster_of V)[nat j := cj]"
            "u_of cj = ?lo" "well_formed cj" "k_of c = min_of c \<or> k_of c = max_of c"
          for W i c j cj and k_of :: "vEBNode \<Rightarrow> int"
        proof -
          have ir: "0 \<le> i" "i < ?up"
            using cluster_at_range [OF that(1)] that(2) sq(4) by simp_all
          have "c \<in> insert cj (set (cluster_of V))"
            using cluster_at_mem [OF that(1)] that(2)
              set_update_subset_insert [of "cluster_of V" "nat j" cj] by auto
          then have "u_of c = ?lo" "well_formed c" using cl that(3,4) by auto
          then have "-1 \<le> k_of c" "k_of c < ?lo" using wf_range [of c] that(5) by auto
          from idx_range [OF lo0 ir this] show ?thesis using sq(3) by (simp add: idx_def)
        qed
        \<comment> \<open>the value removed from the clusters, and the node with its new minimum\<close>
        obtain x1 V1 where step1:
          "(if x = min_of V then do {
               s \<leftarrow> summary_of V;
               let first = vEB_min s;
               cf \<leftarrow> cluster_at V first;
               let off = vEB_min cf;
               let x' = idx V first off;
               Some (x', set_min V x')
             }
             else Some (x, V)) = Some (x1, V1)"
          and V1: "u_of V1 = u_of V" "lower_sqrt_of V1 = lower_sqrt_of V"
          "upper_sqrt_of V1 = upper_sqrt_of V" "summary_of V1 = summary_of V"
          "cluster_of V1 = cluster_of V" "max_of V1 = max_of V"
          and mn1: "-1 \<le> min_of V1" "min_of V1 < u_of V"
        proof (cases "x = min_of V")
          case True
          show ?thesis
          proof (cases "cluster_at V (min_of s)")
            case None
            then have False
              using d x neq nleaf True s(1)
              by (subst (asm) vEB_delete.simps) (simp add: vEB_min_def)
            then show ?thesis ..
          next
            case (Some cf)
            define x' where "x' = idx V (min_of s) (min_of cf)"
            have "-1 \<le> x' \<and> x' < u_of V"
              unfolding x'_def using Some
            proof (rule idxr [where j = 0 and cj = "cluster_of V ! 0"])
              have "0 < length (cluster_of V)" using sq(2,4) by linarith
              then have "cluster_of V ! 0 \<in> set (cluster_of V)" by simp
              from cl [OF this]
              show "u_of (cluster_of V ! 0) = ?lo" "well_formed (cluster_of V ! 0)"
                by simp_all
            qed simp_all
            then show ?thesis
              using True s(1) Some
              by (intro that [of x' "set_min V x'"]) (simp_all add: Let_def vEB_min_def x'_def)
          qed
        next
          case False
          then show ?thesis using r by (intro that [of x V]) simp_all
        qed
        obtain h l where hl: "high V1 x1 = Some h" "low V1 x1 = Some l"
          using lo0 V1(2) by (simp add: high_def low_def)
        obtain c where c: "cluster_at V1 h = Some c"
        proof (cases "cluster_at V1 h")
          case None
          then have False
            using d x neq nleaf hl by (subst (asm) vEB_delete.simps) (simp add: step1)
          then show ?thesis ..
        qed
        obtain st1 c' where dc: "vEB_delete c l = Some (st1, c')"
        proof (cases "vEB_delete c l")
          case None
          then have False
            using d x neq nleaf hl c by (subst (asm) vEB_delete.simps) (simp add: step1)
          then show ?thesis ..
        next
          case (Some p)
          then show ?thesis using that [of "fst p" "snd p"] by simp
        qed
        have hr: "0 \<le> h" "h < ?up" using cluster_at_range [OF c] V1(5) sq(4) by simp_all
        have cV: "c \<in> set (cluster_of V)" using cluster_at_mem [OF c] V1(5) by simp
        have "size c < size V" using cV by (rule cluster_mem_size)
        from less.IH [OF this _ dc] cl [OF cV]
        have c': "well_formed c'" "u_of c' = ?lo" by simp_all
        define V2 where "V2 = set_cluster V1 h c'"
        have final: "well_formed W \<and> u_of W = u_of V"
          if "u_of W = u_of V" "lower_sqrt_of W = ?lo" "upper_sqrt_of W = ?up"
            "summary_of W = Some sW" "cluster_of W = (cluster_of V)[nat h := c']"
            "-1 \<le> min_of W" "min_of W < u_of V" "-1 \<le> max_of W" "max_of W < u_of V"
            "well_formed sW" "u_of sW = ?up" for W sW
          using wf_update [OF w u that(1-9) that(11,10) c'(2,1)] that(1) by simp
        show ?thesis
        proof (cases "min_of c' = -1")
          case cempty: True
          obtain st2 s' where ds: "vEB_delete s h = Some (st2, s')"
          proof (cases "vEB_delete s h")
            case None
            then have False
              using d x neq nleaf hl c dc cempty s(1) V1(4)
              by (subst (asm) vEB_delete.simps) (simp add: step1 Let_def vEB_min_def)
            then show ?thesis ..
          next
            case (Some p)
            then show ?thesis using that [of "fst p" "snd p"] by simp
          qed
          have "size s < size V" using s(1) by (rule summary_size)
          from less.IH [OF this s(3) ds] s(2)
          have s': "well_formed s'" "u_of s' = ?up" by simp_all
          define V3 where "V3 = set_summary V2 s'"
          show ?thesis
          proof (cases "x1 = max_of V")
            case mx: True
            show ?thesis
            proof (cases "max_of s' = -1")
              case True
              have "V' = set_max V3 (min_of V3)"
                using d x neq nleaf hl c dc cempty s(1) V1(4,6) ds mx True
                by (subst (asm) vEB_delete.simps)
                   (simp add: step1 Let_def vEB_min_def vEB_max_def V2_def V3_def)
              moreover have "well_formed (set_max V3 (min_of V3)) \<and>
                  u_of (set_max V3 (min_of V3)) = u_of V"
                by (rule final [where sW = s'])
                   (use V1 mn1 r s' in \<open>simp_all add: V3_def V2_def\<close>)
              ultimately show ?thesis by simp
            next
              case sm: False
              obtain cm where cm: "cluster_at V3 (max_of s') = Some cm"
              proof (cases "cluster_at V3 (max_of s')")
                case None
                then have False
                  using d x neq nleaf hl c dc cempty s(1) V1(4,6) ds mx sm
                  by (subst (asm) vEB_delete.simps)
                     (simp add: step1 Let_def vEB_min_def vEB_max_def V2_def V3_def)
                then show ?thesis ..
              qed
              let ?W = "set_max V3 (idx V3 (max_of s') (vEB_max cm))"
              have "V' = ?W"
                using d x neq nleaf hl c dc cempty s(1) V1(4,6) ds mx sm cm
                by (subst (asm) vEB_delete.simps)
                   (simp add: step1 Let_def vEB_min_def vEB_max_def V2_def V3_def)
              moreover have "well_formed ?W \<and> u_of ?W = u_of V"
              proof (rule final [where sW = s'])
                have "-1 \<le> idx V (max_of s') (max_of cm) \<and> idx V (max_of s') (max_of cm) < u_of V"
                  using cm c' by (intro idxr [of V3 _ _ h c']) (simp_all add: V3_def V2_def V1)
                then show "-1 \<le> max_of ?W" "max_of ?W < u_of V"
                  by (simp_all add: idx_def vEB_max_def V3_def V2_def V1)
              qed (use V1 mn1 r s' in \<open>simp_all add: V3_def V2_def\<close>)
              ultimately show ?thesis by simp
            qed
          next
            case nmx: False
            have "V' = V3"
              using d x neq nleaf hl c dc cempty s(1) V1(4,6) ds nmx
              by (subst (asm) vEB_delete.simps)
                 (simp add: step1 Let_def vEB_min_def vEB_max_def V2_def V3_def)
            moreover have "well_formed V3 \<and> u_of V3 = u_of V"
              by (rule final [where sW = s'])
                 (use V1 mn1 r s' in \<open>simp_all add: V3_def V2_def\<close>)
            ultimately show ?thesis by simp
          qed
        next
          case cne: False
          show ?thesis
          proof (cases "x1 = max_of V")
            case mx: True
            let ?W = "set_max V2 (idx V2 h (vEB_max c'))"
            have "V' = ?W"
              using d x neq nleaf hl c dc cne V1(6) mx
              by (subst (asm) vEB_delete.simps)
                 (simp add: step1 Let_def vEB_min_def vEB_max_def V2_def)
            moreover have "well_formed ?W \<and> u_of ?W = u_of V"
            proof (rule final [where sW = s])
              have ca: "cluster_at V2 h = Some c'"
                using hr sq(4) by (intro cluster_at_update [of h V]) (simp_all add: V2_def V1)
              have "-1 \<le> idx V h (max_of c') \<and> idx V h (max_of c') < u_of V"
                using ca c' by (intro idxr [of V2 _ _ h c']) (simp_all add: V2_def V1)
              then show "-1 \<le> max_of ?W" "max_of ?W < u_of V"
                by (simp_all add: idx_def vEB_max_def V2_def V1)
            qed (use V1 mn1 r s in \<open>simp_all add: V2_def\<close>)
            ultimately show ?thesis by simp
          next
            case nmx: False
            have "V' = V2"
              using d x neq nleaf hl c dc cne V1(6) nmx
              by (subst (asm) vEB_delete.simps)
                 (simp add: step1 Let_def vEB_min_def vEB_max_def V2_def)
            moreover have "well_formed V2 \<and> u_of V2 = u_of V"
              by (rule final [where sW = s])
                 (use V1 mn1 r s in \<open>simp_all add: V2_def\<close>)
            ultimately show ?thesis by simp
          qed
        qed
      qed
    qed
  qed
qed

section \<open>Nodes of a tree and trees left by callers\<close>

lemma nodes_self: "V \<in> set (nodes V)"
  by (subst nodes.simps) simp

lemma nodes_cases:
  "N \<in> set (nodes V) \<Longrightarrow>
     N = V \<or> (\<exists>s. summary_of V = Some s \<and> N \<in> set (nodes s)) \<or>
     (\<exists>c \<in> set (cluster_of V). N \<in> set (nodes c))"
  by (subst (asm) nodes.simps) (auto split: option.splits)

lemma valid_cluster_mem:
  assumes "valid V S" "2 < u_of V" "c \<in> set (cluster_of V)"
  shows "\<exists>S'. valid c S'"
proof -
  obtain i where "i < length (cluster_of V)" "c = cluster_of V ! i"
    using assms(3) by (auto simp: in_set_conv_nth)
  then show ?thesis using valid_cluster_nth [OF assms(1,2), of i] by auto
qed

lemma valid_nodes: "valid V S \<Longrightarrow> N \<in> set (nodes V) \<Longrightarrow> \<exists>S'. valid N S'"
proof (induction V arbitrary: S rule: measure_induct_rule [where f = size])
  case (less V)
  show ?case
  proof (cases "u_of V \<le> 2")
    case True
    then have "N = V"
      using nodes_cases [OF less.prems(2)] valid_leaf_fields [OF less.prems(1) True] by auto
    then show ?thesis using less.prems(1) by auto
  next
    case False
    then have u: "2 < u_of V" by simp
    from nodes_cases [OF less.prems(2)] show ?thesis
    proof (elim disjE exE bexE conjE)
      assume "N = V"
      then show ?thesis using less.prems(1) by auto
    next
      fix s assume s: "summary_of V = Some s" "N \<in> set (nodes s)"
      then obtain S' where "valid s S'" using valid_summary [OF less.prems(1) u] by auto
      then show ?thesis using less.IH [OF summary_size [OF s(1)] _ s(2)] by auto
    next
      fix c assume c: "c \<in> set (cluster_of V)" "N \<in> set (nodes c)"
      then obtain S' where "valid c S'" using valid_cluster_mem [OF less.prems(1) u] by auto
      then show ?thesis using less.IH [OF cluster_mem_size [OF c(1)] _ c(2)] by auto
    qed
  qed
qed

lemma wf_nodes: "well_formed V \<Longrightarrow> N \<in> set (nodes V) \<Longrightarrow> well_formed N"
proof (induction V rule: measure_induct_rule [where f = size])
  case (less V)
  show ?case
  proof (cases "u_of V \<le> 2")
    case True
    then have "N = V"
      using nodes_cases [OF less.prems(2)] wf_leaf [OF less.prems(1) True] by auto
    then show ?thesis using less.prems(1) by auto
  next
    case False
    then have u: "2 < u_of V" by simp
    from nodes_cases [OF less.prems(2)] show ?thesis
    proof (elim disjE exE bexE conjE)
      assume "N = V"
      then show ?thesis using less.prems(1) by auto
    next
      fix s assume s: "summary_of V = Some s" "N \<in> set (nodes s)"
      then have "well_formed s" using wf_summary [OF less.prems(1) u] by auto
      then show ?thesis using less.IH [OF summary_size [OF s(1)] _ s(2)] by auto
    next
      fix c assume c: "c \<in> set (cluster_of V)" "N \<in> set (nodes c)"
      then have "well_formed c" using wf_cluster_mem [OF less.prems(1) u] by auto
      then show ?thesis using less.IH [OF cluster_mem_size [OF c(1)] _ c(2)] by auto
    qed
  qed
qed

lemma valid_wf: "valid V S \<Longrightarrow> well_formed V"
proof (induction V arbitrary: S rule: measure_induct_rule [where f = size])
  case (less V)
  note v = \<open>valid V S\<close>
  have sub: "S \<subseteq> {0..<u_of V}" using v by (rule valid_subset)
  have "min_of V = -1 \<or> min_of V \<in> S" "max_of V = -1 \<or> max_of V \<in> S"
    using valid_least [OF v] valid_greatest [OF v]
    by (auto simp: least_of_def greatest_of_def split: if_splits)
  moreover have "2 \<le> u_of V" using valid_leaf [OF v] by linarith
  ultimately have r: "-1 \<le> min_of V" "min_of V < u_of V" "-1 \<le> max_of V" "max_of V < u_of V"
    using sub by auto
  show ?case
  proof (cases "u_of V \<le> 2")
    case True
    then show ?thesis
      using valid_leaf_fields [OF v True] r by (subst well_formed.simps) simp
  next
    case False
    then have u: "2 < u_of V" by simp
    obtain s where s: "summary_of V = Some s" "u_of s = upper_sqrt_of V"
      "valid s (summary_set (lower_sqrt_of V) (S - {min_of V}))"
      using valid_summary [OF v u] by auto
    have ws: "well_formed s" using less.IH [OF summary_size [OF s(1)] s(3)] .
    have wc: "u_of c = lower_sqrt_of V \<and> well_formed c" if c: "c \<in> set (cluster_of V)" for c
    proof -
      obtain i where i: "i < length (cluster_of V)" "c = cluster_of V ! i"
        using c by (auto simp: in_set_conv_nth)
      show ?thesis
        using valid_cluster_nth [OF v u i(1)] less.IH [OF cluster_mem_size [OF c]] i(2) by auto
    qed
    show ?thesis
      using u r s(1,2) ws wc valid_sqrt [OF v u] by (subst well_formed.simps) simp
  qed
qed

lemma valid_stored: "valid V S \<Longrightarrow> stored V = S"
  using member_correct [of V S] valid_subset [of V S] by (auto simp: stored_def)

lemma insert_out_of_range: "x < 0 \<or> u_of V \<le> x \<Longrightarrow> vEB_insert V x = Some (OutOfRange, V)"
  by (subst vEB_insert.simps) auto

lemma delete_out_of_range: "x < 0 \<or> u_of V \<le> x \<Longrightarrow> vEB_delete V x = Some (OutOfRange, V)"
  by (subst vEB_delete.simps) auto

lemma wf_apply_op:
  assumes "well_formed V" "apply_op V c = Some V'"
  shows "well_formed V' \<and> u_of V' = u_of V"
proof (cases c)
  case (Insert x)
  show ?thesis
  proof (cases "x < 0 \<or> u_of V \<le> x")
    case True
    then show ?thesis using assms Insert insert_out_of_range [OF True] by simp
  next
    case False
    then show ?thesis using wf_insert [OF assms(1), of x] assms(2) Insert by auto
  qed
next
  case (Delete x)
  then obtain st where "vEB_delete V x = Some (st, V')" using assms(2) by auto
  then show ?thesis using wf_delete [OF assms(1)] by simp
qed

lemma wf_run: "well_formed V \<Longrightarrow> run V cs = Some V' \<Longrightarrow> well_formed V' \<and> u_of V' = u_of V"
proof (induction cs arbitrary: V)
  case Nil
  then show ?case by simp
next
  case (Cons c cs)
  then obtain V1 where V1: "apply_op V c = Some V1" "run V1 cs = Some V'"
    by (auto split: option.splits)
  from wf_apply_op [OF Cons.prems(1) V1(1)] Cons.IH [OF _ V1(2)] show ?case by simp
qed

lemma wf_exec: "exec U cs = Some V \<Longrightarrow> well_formed V \<and> u_of V = U"
proof -
  assume "exec U cs = Some V"
  then obtain V0 where V0: "vEB_create U = Some V0" "run V0 cs = Some V"
    by (auto simp: exec_def split: option.splits)
  from create_correct [OF V0(1)] have "well_formed V0" "u_of V0 = U"
    using valid_wf by auto
  then show ?thesis using wf_run [OF _ V0(2)] by simp
qed

lemma valid_run:
  "valid V S \<Longrightarrow> members_only V cs \<Longrightarrow>
     \<exists>V' S'. run V cs = Some V' \<and> valid V' S' \<and> u_of V' = u_of V"
proof (induction cs arbitrary: V S)
  case Nil
  then show ?case by auto
next
  case (Cons c cs)
  have "\<exists>V1 S1 st. (case c of Insert x \<Rightarrow> vEB_insert V x | Delete x \<Rightarrow> vEB_delete V x) = Some (st, V1)
      \<and> valid V1 S1 \<and> u_of V1 = u_of V"
  proof (cases c)
    case (Insert x)
    show ?thesis
    proof (cases "x < 0 \<or> u_of V \<le> x")
      case True
      then show ?thesis using Insert insert_out_of_range [OF True] Cons.prems(1) by auto
    next
      case False
      then show ?thesis using insert_correct [OF Cons.prems(1), of x] Insert by auto
    qed
  next
    case (Delete x)
    show ?thesis
    proof (cases "x < 0 \<or> u_of V \<le> x")
      case True
      then show ?thesis using Delete delete_out_of_range [OF True] Cons.prems(1) by auto
    next
      case False
      then have "vEB_member V x = Some True" using Cons.prems(2) Delete by simp
      then have "x \<in> S" using member_correct [OF Cons.prems(1), of x] False by simp
      then show ?thesis using delete_correct [OF Cons.prems(1), of x] Delete by auto
    qed
  qed
  then obtain V1 S1 st where
    op: "(case c of Insert x \<Rightarrow> vEB_insert V x | Delete x \<Rightarrow> vEB_delete V x) = Some (st, V1)"
    and V1: "valid V1 S1" "u_of V1 = u_of V"
    by auto
  have ap: "apply_op V c = Some V1" using op by (cases c) simp_all
  have "members_only V1 cs" using Cons.prems(2) op by (cases c) simp_all
  from Cons.IH [OF V1(1) this] show ?case using ap V1(2) by auto
qed

lemma careful_exec:
  assumes "1 \<le> n" "careful (2 ^ n) cs"
  shows "\<exists>V S. exec (2 ^ n) cs = Some V \<and> valid V S \<and> u_of V = 2 ^ n"
proof -
  obtain V0 where V0: "vEB_create (2 ^ n) = Some V0" using create_total [OF assms(1)] by auto
  then have "valid V0 {}" "u_of V0 = 2 ^ n" using create_correct by auto
  moreover have "members_only V0 cs" using assms(2) V0 by (simp add: careful_def)
  ultimately show ?thesis using valid_run [of V0 "{}" cs] V0 by (auto simp: exec_def)
qed

lemma careful_valid:
  assumes "exec U cs = Some V" "careful U cs"
  shows "\<exists>S. valid V S \<and> u_of V = U"
proof -
  obtain V0 where V0: "vEB_create U = Some V0" "run V0 cs = Some V"
    using assms(1) by (auto simp: exec_def split: option.splits)
  then have "valid V0 {}" "u_of V0 = U" using create_correct by auto
  moreover have "members_only V0 cs" using assms(2) V0 by (simp add: careful_def)
  ultimately show ?thesis using valid_run [of V0 "{}" cs] V0(2) by auto
qed

section \<open>Deleting a value that is not stored\<close>

lemma member_node:
  assumes "2 < u_of V" "0 < lower_sqrt_of V" "0 \<le> y" "y \<noteq> min_of V" "y \<noteq> max_of V"
  shows "vEB_member V y =
    cluster_at V (y div lower_sqrt_of V) \<bind> (\<lambda>c. vEB_member c (y mod lower_sqrt_of V))"
  using assms high_low [of V y] by (subst vEB_member.simps) simp

theorem delete_absent:
  "valid V S \<Longrightarrow> 0 \<le> x \<Longrightarrow> x < u_of V \<Longrightarrow> x \<notin> S \<Longrightarrow>
     \<exists>V'. vEB_delete V x = Some (OK, V') \<and>
       (if min_of V = max_of V then V' = set_max (set_min V (-1)) (-1)
        else min_of V' = min_of V \<and> max_of V' = max_of V) \<and>
       stored V' \<subseteq> S"
proof (induction V arbitrary: S x rule: measure_induct_rule [where f = size])
  case (less V)
  note v = \<open>valid V S\<close> and x = \<open>0 \<le> x\<close> \<open>x < u_of V\<close> and xS = \<open>x \<notin> S\<close>
  have sub: "S \<subseteq> {0..<u_of V}" using v by (rule valid_subset)
  show ?case
  proof (cases "min_of V = max_of V")
    case True
    have "vEB_delete V x = Some (OK, set_max (set_min V (-1)) (-1))"
      using x True by (subst vEB_delete.simps) simp
    moreover have "stored (set_max (set_min V (-1)) (-1)) = {}"
      using valid_clear [OF v True] by (rule valid_stored)
    ultimately show ?thesis using True by simp
  next
    case neq: False
    then have ne: "S \<noteq> {}" using valid_min_empty [OF v] valid_max_empty [OF v] by auto
    have mnS: "min_of V \<in> S" and mxS: "max_of V \<in> S"
      using valid_least [OF v] valid_greatest [OF v] ne
      by (simp_all add: least_of_def greatest_of_def)
    have xm: "x \<noteq> min_of V" "x \<noteq> max_of V" using xS mnS mxS by auto
    have u: "2 < u_of V"
    proof (rule ccontr)
      assume "\<not> 2 < u_of V"
      then have "u_of V = 2" using valid_leaf [OF v] by simp
      then have "S \<subseteq> {0, 1}" "x = 0 \<or> x = 1" using sub x by auto
      then have "min_of V \<in> {0, 1} - {x}" "max_of V \<in> {0, 1} - {x}"
        using mnS mxS xS by blast+
      then show False using neq \<open>x = 0 \<or> x = 1\<close> by auto
    qed
    let ?lo = "lower_sqrt_of V" and ?up = "upper_sqrt_of V"
    let ?R = "S - {min_of V}"
    have sq: "2 \<le> ?lo" "2 \<le> ?up" "?lo * ?up = u_of V" "int (length (cluster_of V)) = ?up"
      using valid_sqrt [OF v u] by simp_all
    then have lo0: "0 < ?lo" by simp
    define h where "h = x div ?lo"
    define l where "l = x mod ?lo"
    have hl: "high V x = Some h" "low V x = Some l"
      using high_low [of V x] lo0 x by (simp_all add: h_def l_def)
    have hr: "0 \<le> h" "h < ?up"
      using high_range [of ?lo x ?up] lo0 x sq by (simp_all add: h_def)
    have lr: "0 \<le> l" "l < ?lo" using lo0 by (simp_all add: l_def)
    obtain c where c: "cluster_at V h = Some c" "u_of c = ?lo"
      "valid c (cluster_set ?lo ?R h)"
      using valid_cluster [OF v u hr] by auto
    obtain s where s: "summary_of V = Some s" "u_of s = ?up"
      "valid s (summary_set ?lo ?R)"
      using valid_summary [OF v u] by auto
    have lc: "l \<notin> cluster_set ?lo ?R h"
      using xS mod_in_cluster_set [OF lo0, of x ?R] by (simp add: h_def l_def)
    have "size c < size V" using c(1) by (rule cluster_at_size)
    from less.IH [OF this c(3) _ _ lc] lr c(2)
    obtain c' where c': "vEB_delete c l = Some (OK, c')"
      "stored c' \<subseteq> cluster_set ?lo ?R h"
      by auto
    have uc': "u_of c' = ?lo" using wf_delete [OF valid_wf [OF c(3)] c'(1)] c(2) by simp
    have step1:
      "(if x = min_of V then do {
           s \<leftarrow> summary_of V;
           let first = vEB_min s;
           cf \<leftarrow> cluster_at V first;
           let off = vEB_min cf;
           let x' = idx V first off;
           Some (x', set_min V x')
         }
         else Some (x, V)) = Some (x, V)"
      using xm by simp
    define V2 where "V2 = set_cluster V h c'"
    \<comment> \<open>the node that the call leaves\<close>
    obtain V' where V': "vEB_delete V x = Some (OK, V')"
      "min_of V' = min_of V" "max_of V' = max_of V" "u_of V' = u_of V"
      "lower_sqrt_of V' = ?lo" "cluster_of V' = (cluster_of V)[nat h := c']"
    proof (cases "min_of c' = -1")
      case True
      have "\<exists>s'. vEB_delete s h = Some (OK, s')"
      proof (cases "h \<in> summary_set ?lo ?R")
        case True
        then show ?thesis using delete_correct [OF s(3), of h] by auto
      next
        case False
        have "size s < size V" using s(1) by (rule summary_size)
        from less.IH [OF this s(3) _ _ False] hr s(2) show ?thesis by auto
      qed
      then obtain s' where s': "vEB_delete s h = Some (OK, s')" by auto
      have "vEB_delete V x = Some (OK, set_summary V2 s')"
        using x neq u hl c(1) c'(1) True s(1) s' xm
        by (subst vEB_delete.simps) (simp add: step1 Let_def vEB_min_def V2_def)
      then show ?thesis by (rule that) (simp_all add: V2_def)
    next
      case False
      have "vEB_delete V x = Some (OK, V2)"
        using x neq u hl c(1) c'(1) False xm
        by (subst vEB_delete.simps) (simp add: step1 Let_def vEB_min_def V2_def)
      then show ?thesis by (rule that) (simp_all add: V2_def)
    qed
    have "y \<in> S" if y: "y \<in> stored V'" for y
    proof (cases "y = min_of V \<or> y = max_of V")
      case True
      then show ?thesis using mnS mxS by auto
    next
      case False
      have yr: "0 \<le> y" "y < u_of V" and ym: "vEB_member V' y = Some True"
        using y V'(4) by (simp_all add: stored_def)
      let ?hy = "y div ?lo" and ?ly = "y mod ?lo"
      have hyr: "0 \<le> ?hy" "?hy < ?up"
        using high_range [of ?lo y ?up] lo0 yr sq by simp_all
      have "vEB_member V' y = cluster_at V' ?hy \<bind> (\<lambda>c. vEB_member c ?ly)"
        using member_node [of V' y] u lo0 yr False V' by simp
      moreover have "cluster_at V' ?hy = Some ((cluster_of V)[nat h := c'] ! nat ?hy)"
        using hyr sq(4) V'(6) by (simp add: cluster_at_def)
      ultimately have my: "vEB_member ((cluster_of V)[nat h := c'] ! nat ?hy) ?ly = Some True"
        using ym by simp
      have "?ly \<in> cluster_set ?lo ?R ?hy"
      proof (cases "?hy = h")
        case True
        then have "vEB_member c' ?ly = Some True" using my hr sq(4) by simp
        then have "?ly \<in> stored c'" using lo0 uc' by (simp add: stored_def)
        then show ?thesis using c'(2) True by auto
      next
        case hy: False
        then have "nat ?hy \<noteq> nat h" using hyr hr by auto
        then have m: "vEB_member (cluster_of V ! nat ?hy) ?ly = Some True" using my by simp
        obtain cy where cy: "cluster_at V ?hy = Some cy" "u_of cy = ?lo"
          "valid cy (cluster_set ?lo ?R ?hy)"
          using valid_cluster [OF v u hyr] by auto
        then have "cy = cluster_of V ! nat ?hy" using hyr sq(4) by (simp add: cluster_at_def)
        then show ?thesis
          using member_correct [OF cy(3), of ?ly] cy(2) lo0 m by simp
      qed
      then show ?thesis using mod_in_cluster_set [OF lo0, of y ?R] by simp
    qed
    then show ?thesis using V'(1-3) neq by auto
  qed
qed

section \<open>Member outside the universe\<close>

lemma sdiv_neg:
  assumes "x < 0" "0 < lo" "0 \<le> x sdiv (lo::int)"
  shows "x smod lo = x"
proof -
  have d: "x sdiv lo = - ((- x) div lo)" and m: "x smod lo = - ((- x) mod lo)"
    using assms(1,2) by (simp_all add: signed_divide_int_def signed_modulo_int_def sgn_if)
  have "0 \<le> (- x) div lo" using assms(1,2) by (simp add: pos_imp_zdiv_nonneg_iff)
  then have "(- x) div lo = 0" using d assms(3) by linarith
  then have "(- x) mod lo = - x" using mult_div_mod_eq [of lo "- x"] by simp
  then show ?thesis using m by simp
qed

lemma member_below_range:
  "well_formed V \<Longrightarrow> x < -1 \<Longrightarrow> vEB_member V x \<noteq> Some True"
proof (induction V rule: measure_induct_rule [where f = size])
  case (less V)
  have r: "x \<noteq> min_of V" "x \<noteq> max_of V" using wf_range [OF less.prems(1)] less.prems(2) by auto
  show ?case
  proof (cases "u_of V \<le> 2")
    case True
    then show ?thesis using r by (subst vEB_member.simps) simp
  next
    case False
    then have u: "2 < u_of V" by simp
    let ?lo = "lower_sqrt_of V"
    have lo0: "0 < ?lo" using wf_sqrt [OF less.prems(1) u] by simp
    show ?thesis
    proof (cases "cluster_at V (x sdiv ?lo)")
      case None
      then show ?thesis using r False lo0 by (subst vEB_member.simps) (simp add: high_def low_def)
    next
      case (Some c)
      then have "0 \<le> x sdiv ?lo" using cluster_at_range by blast
      then have l: "x smod ?lo = x" using sdiv_neg [of x ?lo] less.prems(2) lo0 by simp
      have "well_formed c" "size c < size V"
        using wf_cluster_mem [OF less.prems(1) u cluster_at_mem [OF Some]] cluster_at_size [OF Some]
        by simp_all
      then have "vEB_member c x \<noteq> Some True" using less.IH less.prems(2) by simp
      then show ?thesis
        using r False lo0 Some l by (subst vEB_member.simps) (simp add: high_def low_def)
    qed
  qed
qed

lemma member_above_range:
  assumes "well_formed V" "u_of V \<le> x"
  shows "vEB_member V x = (if u_of V \<le> 2 then Some False else None)"
proof -
  have r: "x \<noteq> min_of V" "x \<noteq> max_of V" using wf_range [OF assms(1)] assms(2) by auto
  show ?thesis
  proof (cases "u_of V \<le> 2")
    case True
    then show ?thesis using r by (subst vEB_member.simps) simp
  next
    case False
    then have u: "2 < u_of V" by simp
    let ?lo = "lower_sqrt_of V" and ?up = "upper_sqrt_of V"
    have sq: "2 \<le> ?lo" "?lo * ?up = u_of V" "int (length (cluster_of V)) = ?up"
      using wf_sqrt [OF assms(1) u] by simp_all
    have x0: "0 \<le> x" using assms(2) u by simp
    have "(?up * ?lo) div ?lo \<le> x div ?lo"
      using assms(2) sq by (intro zdiv_mono1) (simp_all add: mult.commute)
    then have "?up \<le> x div ?lo" using sq(1) by simp
    then have "cluster_at V (x div ?lo) = None" using sq(3) by (simp add: cluster_at_def)
    then show ?thesis
      using r False high_low [of V x] sq(1) x0 by (subst vEB_member.simps) simp
  qed
qed

text \<open>
  The value \<open>-1\<close> is compared with the minimum and the maximum of the root, then of
  \<^verbatim>\<open>cluster[0]\<close> (since \<open>-1 / lower_sqrt = 0\<close> and \<open>-1 % lower_sqrt = -1\<close> in C), then of
  its \<^verbatim>\<open>cluster[0]\<close>, and so on down to a node with \<open>U = 2\<close>. \<open>first_chain_empty V\<close>
  holds when one of these nodes has minimum or maximum \<open>-1\<close>.
\<close>

function first_chain_empty :: "vEBNode \<Rightarrow> bool" where
  "first_chain_empty V \<longleftrightarrow>
     min_of V = -1 \<or> max_of V = -1 \<or>
     (2 < u_of V \<and> (case cluster_at V 0 of None \<Rightarrow> False | Some c \<Rightarrow> first_chain_empty c))"
  by pat_completeness auto
termination
  by (relation "measure size") (auto simp: cluster_at_size)

declare first_chain_empty.simps [simp del]

lemma sdiv_minus_one:
  assumes "2 \<le> (lo::int)"
  shows "(-1) sdiv lo = 0" "(-1) smod lo = -1"
  using assms by (simp_all add: signed_divide_int_def signed_modulo_int_def sgn_if)

lemma sdiv_neg_less:
  assumes "x < 0" "0 < lo" "0 \<le> x sdiv (lo::int)"
  shows "- x < lo"
proof -
  have d: "x sdiv lo = - ((- x) div lo)"
    using assms(1,2) by (simp add: signed_divide_int_def sgn_if)
  have "0 \<le> (- x) div lo" using assms(1,2) by (simp add: pos_imp_zdiv_nonneg_iff)
  then have "(- x) div lo = 0" using d assms(3) by linarith
  then have "(- x) mod lo = - x" using mult_div_mod_eq [of lo "- x"] by simp
  moreover have "(- x) mod lo < lo" using assms(2) by simp
  ultimately show ?thesis by simp
qed

lemma member_minus_one:
  "well_formed V \<Longrightarrow> vEB_member V (-1) = Some (first_chain_empty V)"
proof (induction V rule: measure_induct_rule [where f = size])
  case (less V)
  show ?case
  proof (cases "min_of V = -1 \<or> max_of V = -1")
    case True
    have "first_chain_empty V" using True by (subst first_chain_empty.simps) blast
    moreover have "vEB_member V (-1) = Some True" using True by (subst vEB_member.simps) auto
    ultimately show ?thesis by simp
  next
    case nm: False
    show ?thesis
    proof (cases "u_of V \<le> 2")
      case True
      have "\<not> first_chain_empty V" using nm True by (subst first_chain_empty.simps) simp
      moreover have "vEB_member V (-1) = Some False"
        using nm True by (subst vEB_member.simps) auto
      ultimately show ?thesis by simp
    next
      case nleaf: False
      then have u: "2 < u_of V" by simp
      let ?lo = "lower_sqrt_of V" and ?up = "upper_sqrt_of V"
      have sq: "2 \<le> ?lo" "2 \<le> ?up" using wf_sqrt [OF less.prems(1) u] by simp_all
      obtain c where c: "cluster_at V 0 = Some c" "well_formed c"
        using wf_cluster [OF less.prems(1) u, of 0] sq(2) by auto
      have ih: "vEB_member c (-1) = Some (first_chain_empty c)"
        using less.IH [OF cluster_at_size [OF c(1)] c(2)] .
      have h: "high V (-1) = Some 0" "low V (-1) = Some (-1)"
        using sdiv_minus_one [OF sq(1)] sq(1) by (simp_all add: high_def low_def)
      have "vEB_member V (-1) = vEB_member c (-1)"
        using nm nleaf h c(1) by (subst vEB_member.simps) auto
      moreover have "first_chain_empty V = first_chain_empty c"
        using nm u c(1) by (subst first_chain_empty.simps) simp
      ultimately show ?thesis using ih by simp
    qed
  qed
qed

lemma member_below_none:
  "well_formed V \<Longrightarrow> 2 < u_of V \<Longrightarrow> x < -1 \<Longrightarrow> vEB_member V x = None"
proof (induction V rule: measure_induct_rule [where f = size])
  case (less V)
  note u = less.prems(2)
  have r: "x \<noteq> min_of V" "x \<noteq> max_of V" using wf_range [OF less.prems(1)] less.prems(3) by auto
  have nleaf: "\<not> u_of V \<le> 2" using u by simp
  let ?lo = "lower_sqrt_of V"
  have lo0: "0 < ?lo" using wf_sqrt [OF less.prems(1) u] by simp
  show ?case
  proof (cases "cluster_at V (x sdiv ?lo)")
    case None
    then show ?thesis using r nleaf lo0 by (subst vEB_member.simps) (simp add: high_def low_def)
  next
    case (Some c)
    then have h0: "0 \<le> x sdiv ?lo" using cluster_at_range by blast
    have x0: "x < 0" using less.prems(3) by simp
    have l: "x smod ?lo = x" using sdiv_neg [OF x0 lo0 h0] .
    have "- x < ?lo" using sdiv_neg_less [OF x0 lo0 h0] .
    then have lo2: "2 < ?lo" using less.prems(3) by simp
    have wc: "u_of c = ?lo" "well_formed c"
      using wf_cluster_mem [OF less.prems(1) u cluster_at_mem [OF Some]] by simp_all
    have "vEB_member c x = None"
      using less.IH [OF cluster_at_size [OF Some] wc(2) _ less.prems(3)] wc(1) lo2 by simp
    then show ?thesis
      using r nleaf lo0 Some l by (subst vEB_member.simps) (simp add: high_def low_def)
  qed
qed

section \<open>Recursive calls\<close>

text \<open>
  Each of the five operations is defined by recursion. Its definition comes with its call
  relation: \<open>vEB_member_rel (C, y) (N, x)\<close> holds when the body of \<open>vEB_member N x\<close> reaches
  the recursive call \<open>vEB_member C y\<close>, and likewise for \<open>vEB_insert_rel\<close>,
  \<open>vEB_delete_rel\<close>, \<open>vEB_successor_rel\<close> and \<open>vEB_predecessor_rel\<close>.

  An operation with the call relation \<open>calls\<close> descends at \<open>(N, x)\<close> when there is one index
  \<open>h\<close> such that every recursive call of the operation at \<open>(N, x)\<close> is made on a node with
  \<open>U > 2\<close>, either on its summary with the argument \<open>h\<close> or on its cluster of index \<open>h\<close>,
  and the universe of that child is at least 2 and smaller than \<open>U\<close>.
\<close>

definition descends ::
  "(vEBNode \<times> int \<Rightarrow> vEBNode \<times> int \<Rightarrow> bool) \<Rightarrow> vEBNode \<Rightarrow> int \<Rightarrow> bool" where
  "descends calls N x \<longleftrightarrow>
     (\<exists>h. \<forall>C y. calls (C, y) (N, x) \<longrightarrow>
        2 < u_of N \<and> ((summary_of N = Some C \<and> y = h) \<or> cluster_at N h = Some C) \<and>
        2 \<le> u_of C \<and> u_of C < u_of N)"

lemma descendsI:
  assumes w: "well_formed N"
    and c: "\<And>C y. calls (C, y) (N, x) \<Longrightarrow>
       u_of N \<noteq> 2 \<and> ((summary_of N = Some C \<and> y = h) \<or> cluster_at N h = Some C)"
  shows "descends calls N x"
  unfolding descends_def
proof (intro exI [of _ h] allI impI)
  fix C y
  assume a: "calls (C, y) (N, x)"
  have n2: "u_of N \<noteq> 2"
    and ch: "(summary_of N = Some C \<and> y = h) \<or> cluster_at N h = Some C"
    using c [OF a] by simp_all
  have u: "2 < u_of N" using wf_u [OF w] n2 by simp
  let ?lo = "lower_sqrt_of N" and ?up = "upper_sqrt_of N"
  have sq: "2 \<le> ?lo" "2 \<le> ?up" "?lo * ?up = u_of N" using wf_sqrt [OF w u] by simp_all
  have "?lo * 2 \<le> ?lo * ?up" "2 * ?up \<le> ?lo * ?up"
    using sq(1,2) by (simp_all add: mult_left_mono mult_right_mono)
  then have lt: "?lo < u_of N" "?up < u_of N" using sq by linarith+
  have "u_of C = ?lo \<or> u_of C = ?up"
  proof (cases "cluster_at N h = Some C")
    case True
    then show ?thesis using wf_cluster_mem [OF w u cluster_at_mem [OF True]] by simp
  next
    case False
    then have "summary_of N = Some C" using ch by simp
    then show ?thesis using wf_summary [OF w u] by auto
  qed
  then have "2 \<le> u_of C \<and> u_of C < u_of N" using sq(1,2) lt by auto
  then show "2 < u_of N \<and> ((summary_of N = Some C \<and> y = h) \<or> cluster_at N h = Some C) \<and>
        2 \<le> u_of C \<and> u_of C < u_of N"
    using u ch by simp
qed

lemma cluster_at_set_min [simp]: "cluster_at (set_min V m) i = cluster_at V i"
  by (simp add: cluster_at_def)

lemma member_descends: "well_formed N \<Longrightarrow> descends vEB_member_rel N x"
proof (rule descendsI [where h = "x sdiv lower_sqrt_of N"])
  fix C y
  assume "vEB_member_rel (C, y) (N, x)"
  then show "u_of N \<noteq> 2 \<and> ((summary_of N = Some C \<and> y = x sdiv lower_sqrt_of N) \<or>
      cluster_at N (x sdiv lower_sqrt_of N) = Some C)"
    by (cases rule: vEB_member_rel.cases) (auto simp: high_def split: if_splits)
qed

lemma successor_descends: "well_formed N \<Longrightarrow> descends vEB_successor_rel N x"
proof (rule descendsI [where h = "x sdiv lower_sqrt_of N"])
  fix C y
  assume "vEB_successor_rel (C, y) (N, x)"
  then show "u_of N \<noteq> 2 \<and> ((summary_of N = Some C \<and> y = x sdiv lower_sqrt_of N) \<or>
      cluster_at N (x sdiv lower_sqrt_of N) = Some C)"
    by (cases rule: vEB_successor_rel.cases) (auto simp: high_def split: if_splits)
qed

lemma predecessor_descends: "well_formed N \<Longrightarrow> descends vEB_predecessor_rel N x"
proof (rule descendsI [where h = "x sdiv lower_sqrt_of N"])
  fix C y
  assume "vEB_predecessor_rel (C, y) (N, x)"
  then show "u_of N \<noteq> 2 \<and> ((summary_of N = Some C \<and> y = x sdiv lower_sqrt_of N) \<or>
      cluster_at N (x sdiv lower_sqrt_of N) = Some C)"
    by (cases rule: vEB_predecessor_rel.cases) (auto simp: high_def split: if_splits)
qed

lemma insert_descends: "well_formed N \<Longrightarrow> descends vEB_insert_rel N x"
proof (rule descendsI [where h = "(if x < min_of N then min_of N else x) sdiv lower_sqrt_of N"])
  fix C y
  assume "vEB_insert_rel (C, y) (N, x)"
  then show "u_of N \<noteq> 2 \<and>
     ((summary_of N = Some C \<and> y = (if x < min_of N then min_of N else x) sdiv lower_sqrt_of N) \<or>
      cluster_at N ((if x < min_of N then min_of N else x) sdiv lower_sqrt_of N) = Some C)"
    by (cases rule: vEB_insert_rel.cases) (auto simp: high_def split: if_splits)
qed

text \<open>
  The key that \<^verbatim>\<open>vEB_delete\<close> passes down: \<open>x\<close>, or the value that replaces the minimum
  when \<open>x\<close> is the minimum.
\<close>

definition delete_key :: "vEBNode \<Rightarrow> int \<Rightarrow> int" where
  "delete_key N x =
     (if x = min_of N then
        (case summary_of N of None \<Rightarrow> x
         | Some s \<Rightarrow> (case cluster_at N (vEB_min s) of None \<Rightarrow> x
             | Some cf \<Rightarrow> idx N (vEB_min s) (vEB_min cf)))
      else x)"

lemma delete_descends: "well_formed N \<Longrightarrow> descends vEB_delete_rel N x"
proof (rule descendsI [where h = "delete_key N x sdiv lower_sqrt_of N"])
  fix C y
  assume "vEB_delete_rel (C, y) (N, x)"
  then show "u_of N \<noteq> 2 \<and>
     ((summary_of N = Some C \<and> y = delete_key N x sdiv lower_sqrt_of N) \<or>
      cluster_at N (delete_key N x sdiv lower_sqrt_of N) = Some C)"
    by (cases rule: vEB_delete_rel.cases)
       (auto simp: high_def delete_key_def Let_def split: if_splits bind_splits)
qed

lemma wf_successor_total:
  "well_formed V \<Longrightarrow> 0 \<le> x \<Longrightarrow> x < u_of V \<Longrightarrow>
     \<exists>r. vEB_successor V x = Some r \<and> -1 \<le> r \<and> r < u_of V"
proof (induction V arbitrary: x rule: measure_induct_rule [where f = size])
  case (less V)
  note w = less.prems(1)
  have r: "-1 \<le> min_of V" "min_of V < u_of V" using wf_range [OF w] by simp_all
  show ?case
  proof (cases "u_of V \<le> 2")
    case True
    then have "u_of V = 2" using wf_u [OF w] by simp
    then show ?thesis by (subst vEB_successor.simps) simp
  next
    case nleaf: False
    then have u: "2 < u_of V" by simp
    show ?thesis
    proof (cases "min_of V \<noteq> -1 \<and> x < min_of V")
      case True
      then have "vEB_successor V x = Some (min_of V)"
        using nleaf by (subst vEB_successor.simps) simp
      then show ?thesis using r by simp
    next
      case nmin: False
      let ?lo = "lower_sqrt_of V" and ?up = "upper_sqrt_of V"
      let ?h = "x div ?lo" and ?l = "x mod ?lo"
      have sq: "2 \<le> ?lo" "?lo * ?up = u_of V" using wf_sqrt [OF w u] by simp_all
      have lo0: "0 < ?lo" using sq(1) by simp
      have hr: "0 \<le> ?h" "?h < ?up"
        using high_range [of ?lo x ?up] sq less.prems by simp_all
      have lr: "0 \<le> ?l" "?l < ?lo" using lo0 by simp_all
      have hl: "high V x = Some ?h" "low V x = Some ?l"
        using high_low [of V x] sq less.prems by simp_all
      obtain c where c: "cluster_at V ?h = Some c" "u_of c = ?lo" "well_formed c"
        using wf_cluster [OF w u hr] by auto
      obtain s where s: "summary_of V = Some s" "u_of s = ?up" "well_formed s"
        using wf_summary [OF w u] by auto
      show ?thesis
      proof (cases "max_of c \<noteq> -1 \<and> ?l < max_of c")
        case True
        obtain off where off: "vEB_successor c ?l = Some off" "-1 \<le> off" "off < ?lo"
          using less.IH [OF cluster_at_size [OF c(1)] c(3), of ?l] lr c(2) by auto
        have "vEB_successor V x = Some (idx V ?h off)"
          using nleaf nmin hl c(1) True off(1)
          by (subst vEB_successor.simps) (auto simp add: vEB_max_def)
        moreover have "-1 \<le> idx V ?h off \<and> idx V ?h off < u_of V"
          using idx_range [OF lo0 hr off(2,3)] sq(2) by (simp add: idx_def)
        ultimately show ?thesis by simp
      next
        case nmax: False
        obtain sc where sc: "vEB_successor s ?h = Some sc" "-1 \<le> sc" "sc < ?up"
          using less.IH [OF summary_size [OF s(1)] s(3), of ?h] hr s(2) by auto
        show ?thesis
        proof (cases "sc = -1")
          case True
          have "vEB_successor V x = Some (-1)"
            using nleaf nmin hl c(1) nmax s(1) sc(1) True
            by (subst vEB_successor.simps) (auto simp add: vEB_max_def)
          then show ?thesis using u by simp
        next
          case False
          then have sr: "0 \<le> sc" using sc(2) by simp
          obtain c' where c': "cluster_at V sc = Some c'" "u_of c' = ?lo" "well_formed c'"
            using wf_cluster [OF w u sr sc(3)] by auto
          have mr: "-1 \<le> min_of c'" "min_of c' < ?lo" using wf_range [OF c'(3)] c'(2) by simp_all
          have "vEB_successor V x = Some (idx V sc (min_of c'))"
            using nleaf nmin hl c(1) nmax s(1) sc(1) False c'(1)
            by (subst vEB_successor.simps) (auto simp add: vEB_max_def vEB_min_def)
          moreover have "-1 \<le> idx V sc (min_of c') \<and> idx V sc (min_of c') < u_of V"
            using idx_range [OF lo0 sr sc(3) mr] sq(2) by (simp add: idx_def)
          ultimately show ?thesis by simp
        qed
      qed
    qed
  qed
qed

lemma wf_predecessor_total:
  "well_formed V \<Longrightarrow> 0 \<le> x \<Longrightarrow> x < u_of V \<Longrightarrow>
     \<exists>r. vEB_predecessor V x = Some r \<and> -1 \<le> r \<and> r < u_of V"
proof (induction V arbitrary: x rule: measure_induct_rule [where f = size])
  case (less V)
  note w = less.prems(1)
  have r: "-1 \<le> min_of V" "min_of V < u_of V" "-1 \<le> max_of V" "max_of V < u_of V"
    using wf_range [OF w] by simp_all
  show ?case
  proof (cases "u_of V \<le> 2")
    case True
    then have "u_of V = 2" using wf_u [OF w] by simp
    then show ?thesis by (subst vEB_predecessor.simps) simp
  next
    case nleaf: False
    then have u: "2 < u_of V" by simp
    show ?thesis
    proof (cases "max_of V \<noteq> -1 \<and> x > max_of V")
      case True
      then have "vEB_predecessor V x = Some (max_of V)"
        using nleaf by (subst vEB_predecessor.simps) simp
      then show ?thesis using r by simp
    next
      case nmax: False
      let ?lo = "lower_sqrt_of V" and ?up = "upper_sqrt_of V"
      let ?h = "x div ?lo" and ?l = "x mod ?lo"
      have sq: "2 \<le> ?lo" "?lo * ?up = u_of V" using wf_sqrt [OF w u] by simp_all
      have lo0: "0 < ?lo" using sq(1) by simp
      have hr: "0 \<le> ?h" "?h < ?up"
        using high_range [of ?lo x ?up] sq less.prems by simp_all
      have lr: "0 \<le> ?l" "?l < ?lo" using lo0 by simp_all
      have hl: "high V x = Some ?h" "low V x = Some ?l"
        using high_low [of V x] sq less.prems by simp_all
      obtain c where c: "cluster_at V ?h = Some c" "u_of c = ?lo" "well_formed c"
        using wf_cluster [OF w u hr] by auto
      obtain s where s: "summary_of V = Some s" "u_of s = ?up" "well_formed s"
        using wf_summary [OF w u] by auto
      show ?thesis
      proof (cases "min_of c \<noteq> -1 \<and> ?l > min_of c")
        case True
        obtain off where off: "vEB_predecessor c ?l = Some off" "-1 \<le> off" "off < ?lo"
          using less.IH [OF cluster_at_size [OF c(1)] c(3), of ?l] lr c(2) by auto
        have "vEB_predecessor V x = Some (idx V ?h off)"
          using nleaf nmax hl c(1) True off(1)
          by (subst vEB_predecessor.simps) (auto simp add: vEB_min_def)
        moreover have "-1 \<le> idx V ?h off \<and> idx V ?h off < u_of V"
          using idx_range [OF lo0 hr off(2,3)] sq(2) by (simp add: idx_def)
        ultimately show ?thesis by simp
      next
        case nmin: False
        obtain pc where pc: "vEB_predecessor s ?h = Some pc" "-1 \<le> pc" "pc < ?up"
          using less.IH [OF summary_size [OF s(1)] s(3), of ?h] hr s(2) by auto
        show ?thesis
        proof (cases "pc = -1")
          case True
          have "vEB_predecessor V x =
              (if min_of V \<noteq> -1 \<and> x > min_of V then Some (min_of V) else Some (-1))"
            using nleaf nmax hl c(1) nmin s(1) pc(1) True
            by (subst vEB_predecessor.simps) (auto simp add: vEB_min_def)
          then show ?thesis using u r by simp
        next
          case False
          then have pr: "0 \<le> pc" using pc(2) by simp
          obtain c' where c': "cluster_at V pc = Some c'" "u_of c' = ?lo" "well_formed c'"
            using wf_cluster [OF w u pr pc(3)] by auto
          have mr: "-1 \<le> max_of c'" "max_of c' < ?lo" using wf_range [OF c'(3)] c'(2) by simp_all
          have "vEB_predecessor V x = Some (idx V pc (max_of c'))"
            using nleaf nmax hl c(1) nmin s(1) pc(1) False c'(1)
            by (subst vEB_predecessor.simps) (auto simp add: vEB_max_def vEB_min_def)
          moreover have "-1 \<le> idx V pc (max_of c') \<and> idx V pc (max_of c') < u_of V"
            using idx_range [OF lo0 pr pc(3) mr] sq(2) by (simp add: idx_def)
          ultimately show ?thesis by simp
        qed
      qed
    qed
  qed
qed

section \<open>Claims\<close>

text \<open>
  A tree is reachable when a caller leaves it: \<open>exec U cs = Some V\<close>. A caller is careful
  (\<open>careful U cs\<close>) when every value of the universe that it deletes is stored at that
  moment. \<open>stored V\<close> is the set of values of the universe that \<^verbatim>\<open>vEB_member\<close> reports.
\<close>

subsection \<open>Concrete trees\<close>

definition empty16 :: vEBNode where
  "empty16 =
     (let leaf = vEBNode 2 (-1) (-1) None [] 0 0;
          node4 = vEBNode 4 (-1) (-1) (Some leaf) [leaf, leaf] 2 2
      in vEBNode 16 (-1) (-1) (Some node4) [node4, node4, node4, node4] 4 4)"

definition tree4 :: vEBNode where
  "tree4 = vEBNode 4 1 3 (Some (vEBNode 2 1 1 None [] 0 0))
     [vEBNode 2 (-1) (-1) None [] 0 0, vEBNode 2 1 1 None [] 0 0] 2 2"

definition tree4_single :: vEBNode where
  "tree4_single = vEBNode 4 3 3 (Some (vEBNode 2 (-1) (-1) None [] 0 0))
     [vEBNode 2 (-1) (-1) None [] 0 0, vEBNode 2 (-1) (-1) None [] 0 0] 2 2"

subsection \<open>C1: insert, member, delete, member\<close>

text \<open>
  C1 as stated fails on a reachable tree: after deleting 9 from \<open>{0, 5}\<close> (9 is not
  stored), inserting 9 and deleting it again, the calls \<^verbatim>\<open>vEB_insert(5)\<close>, \<^verbatim>\<open>vEB_delete(5)\<close>
  leave a tree in which \<^verbatim>\<open>vEB_member(5)\<close> is still true.
\<close>

theorem insert_delete_member_counterexample:
  "member_after 16 [Insert 0, Insert 5, Delete 9, Insert 9, Delete 9, Insert 5, Delete 5] 5
     = Some True"
  by code_simp

text \<open>
  C1, amended: for every universe size \<open>U = 2 ^ n\<close> with \<open>n \<ge> 1\<close>, every careful caller
  and every \<open>x\<close> in \<open>[0, U)\<close>: the caller leaves a tree; on it \<^verbatim>\<open>vEB_insert(x)\<close> succeeds
  and \<^verbatim>\<open>vEB_member(x)\<close> is then true; a following \<^verbatim>\<open>vEB_delete(x)\<close> succeeds and
  \<^verbatim>\<open>vEB_member(x)\<close> is then false.
\<close>

theorem insert_delete_member:
  assumes "1 \<le> n" "careful (2 ^ n) cs" "0 \<le> x" "x < 2 ^ n"
  shows "\<exists>V V1 V2. exec (2 ^ n) cs = Some V \<and>
    vEB_insert V x = Some (OK, V1) \<and> vEB_member V1 x = Some True \<and>
    vEB_delete V1 x = Some (OK, V2) \<and> vEB_member V2 x = Some False"
proof -
  obtain V S where V: "exec (2 ^ n) cs = Some V" "valid V S" "u_of V = 2 ^ n"
    using careful_exec [OF assms(1,2)] by auto
  obtain V1 where V1: "vEB_insert V x = Some (OK, V1)" "valid V1 (insert x S)" "u_of V1 = u_of V"
    using insert_correct [OF V(2), of x] assms(3,4) V(3) by auto
  have m1: "vEB_member V1 x = Some True"
    using member_correct [OF V1(2), of x] assms(3,4) V(3) V1(3) by simp
  obtain V2 where V2: "vEB_delete V1 x = Some (OK, V2)" "valid V2 (insert x S - {x})"
    "u_of V2 = u_of V1"
    using delete_correct [OF V1(2), of x] by auto
  have m2: "vEB_member V2 x = Some False"
    using member_correct [OF V2(2), of x] assms(3,4) V(3) V1(3) V2(3) by simp
  show ?thesis using V(1) V1(1) m1 V2(1) m2 by blast
qed

theorem insert_delete_member_witness:
  "(1::nat) \<le> 2 \<and> careful (2 ^ 2) [Insert 1, Insert 3, Delete 1] \<and> (0::int) \<le> 2 \<and>
   (2::int) < 2 ^ 2 \<and>
   (\<exists>V V1 V2. exec (2 ^ 2) [Insert 1, Insert 3, Delete 1] = Some V \<and>
      vEB_insert V 2 = Some (OK, V1) \<and> vEB_member V1 2 = Some True \<and>
      vEB_delete V1 2 = Some (OK, V2) \<and> vEB_member V2 2 = Some False)"
proof -
  have c: "careful (2 ^ 2) [Insert 1, Insert 3, Delete 1]" by code_simp
  from insert_delete_member [of 2 "[Insert 1, Insert 3, Delete 1]" 2, OF _ c]
  show ?thesis using c by simp
qed

subsection \<open>C2: successor and predecessor\<close>

text \<open>
  C2 as stated fails on a reachable tree: after deleting 6 from \<open>{1, 5}\<close> (6 is not
  stored) the value 5 is still stored, and the successor of 1 is reported as empty.
  After deleting 9 from \<open>{0, 5}\<close> and inserting 13, the predecessor of 13 is reported
  as 0, and 5 is stored.
\<close>

theorem successor_counterexample:
  "successor_after 16 [Insert 1, Insert 5, Delete 6] 1 = Some (-1) \<and>
   member_after 16 [Insert 1, Insert 5, Delete 6] 5 = Some True \<and>
   predecessor_after 16 [Insert 0, Insert 5, Delete 9, Insert 13] 13 = Some 0 \<and>
   member_after 16 [Insert 0, Insert 5, Delete 9, Insert 13] 5 = Some True"
  by code_simp

text \<open>
  C2, amended: for every tree left by a careful caller and every \<open>x\<close> in \<open>[0, U)\<close>,
  \<^verbatim>\<open>vEB_successor\<close> returns the smallest stored value greater than \<open>x\<close> and
  \<^verbatim>\<open>vEB_predecessor\<close> the largest stored value less than \<open>x\<close>, each \<open>-1\<close> when there is
  none; \<open>x\<close> need not be stored.
\<close>

theorem successor_predecessor:
  assumes "1 \<le> n" "careful (2 ^ n) cs" "0 \<le> x" "x < 2 ^ n"
  shows "\<exists>V r p. exec (2 ^ n) cs = Some V \<and>
    vEB_successor V x = Some r \<and> least_of {y \<in> stored V. x < y} r \<and>
    vEB_predecessor V x = Some p \<and> greatest_of {y \<in> stored V. y < x} p"
proof -
  obtain V S where V: "exec (2 ^ n) cs = Some V" "valid V S" "u_of V = 2 ^ n"
    using careful_exec [OF assms(1,2)] by auto
  have st: "stored V = S" using V(2) by (rule valid_stored)
  obtain r where r: "vEB_successor V x = Some r" "least_of {y \<in> S. x < y} r"
    using successor_correct [OF V(2), of x] assms(3,4) V(3) by auto
  obtain p where p: "vEB_predecessor V x = Some p" "greatest_of {y \<in> S. y < x} p"
    using predecessor_correct [OF V(2), of x] assms(3,4) V(3) by auto
  show ?thesis using V(1) r p st by blast
qed

theorem successor_predecessor_witness:
  "(1::nat) \<le> 2 \<and> careful (2 ^ 2) [Insert 1, Insert 3, Delete 1] \<and> (0::int) \<le> 2 \<and>
   (2::int) < 2 ^ 2 \<and>
   (\<exists>V r p. exec (2 ^ 2) [Insert 1, Insert 3, Delete 1] = Some V \<and>
      vEB_successor V 2 = Some r \<and> least_of {y \<in> stored V. 2 < y} r \<and>
      vEB_predecessor V 2 = Some p \<and> greatest_of {y \<in> stored V. y < 2} p)"
proof -
  have c: "careful (2 ^ 2) [Insert 1, Insert 3, Delete 1]" by code_simp
  from successor_predecessor [of 2 "[Insert 1, Insert 3, Delete 1]" 2, OF _ c]
  show ?thesis using c by simp
qed

subsection \<open>C3: the summary\<close>

text \<open>
  C3 as stated fails on a reachable tree: deleting 9 from \<open>{0, 5}\<close> (9 is not stored)
  empties the summary, while cluster 1 still holds the offset 1.
\<close>

theorem summary_counterexample:
  "summary_member_after 16 [Insert 0, Insert 5, Delete 9] 1 = Some False \<and>
   cluster_min_after 16 [Insert 0, Insert 5, Delete 9] 1 = Some 1 \<and>
   cluster_member_after 16 [Insert 0, Insert 5, Delete 9] 1 1 = Some True"
  by code_simp

text \<open>
  C3, amended: in every tree left by a careful caller, for every node with \<open>U > 2\<close> and
  every index \<open>i\<close> of its cluster array, the summary contains \<open>i\<close> if and only if
  \<open>cluster[i]\<close> stores a value, which is the case if and only if its minimum is not \<open>-1\<close>.
\<close>

theorem summary_tracks_clusters:
  assumes "exec U cs = Some V" "careful U cs" "N \<in> set (nodes V)" "2 < u_of N"
    "0 \<le> i" "i < upper_sqrt_of N"
  shows "\<exists>s c. summary_of N = Some s \<and> cluster_at N i = Some c \<and>
    vEB_member s i = Some (stored c \<noteq> {}) \<and> (min_of c = -1 \<longleftrightarrow> stored c = {})"
proof -
  obtain S where "valid V S" using careful_valid [OF assms(1,2)] by auto
  then obtain S' where v: "valid N S'" using valid_nodes assms(3) by blast
  let ?lo = "lower_sqrt_of N" and ?R = "S' - {min_of N}"
  obtain s where s: "summary_of N = Some s" "u_of s = upper_sqrt_of N"
    "valid s (summary_set ?lo ?R)"
    using valid_summary [OF v assms(4)] by auto
  obtain c where c: "cluster_at N i = Some c" "valid c (cluster_set ?lo ?R i)"
    using valid_cluster [OF v assms(4,5,6)] by auto
  have st: "stored c = cluster_set ?lo ?R i" using c(2) by (rule valid_stored)
  have "vEB_member s i = Some (i \<in> summary_set ?lo ?R)"
    using member_correct [OF s(3), of i] assms(5,6) s(2) by simp
  then have "vEB_member s i = Some (stored c \<noteq> {})" by (simp add: summary_set_iff st)
  moreover have "min_of c = -1 \<longleftrightarrow> stored c = {}" using valid_min_empty [OF c(2)] st by simp
  ultimately show ?thesis using s(1) c(1) by blast
qed

theorem summary_tracks_clusters_witness:
  "exec 4 [Insert 1, Insert 3] = Some tree4 \<and> careful 4 [Insert 1, Insert 3] \<and>
   tree4 \<in> set (nodes tree4) \<and> 2 < u_of tree4 \<and> (0::int) \<le> 1 \<and> 1 < upper_sqrt_of tree4 \<and>
   (\<exists>s c. summary_of tree4 = Some s \<and> cluster_at tree4 1 = Some c \<and>
      vEB_member s 1 = Some (stored c \<noteq> {}) \<and> (min_of c = -1 \<longleftrightarrow> stored c = {}))"
proof -
  have e: "exec 4 [Insert 1, Insert 3] = Some tree4" by code_simp
  have c: "careful 4 [Insert 1, Insert 3]" by code_simp
  have n: "tree4 \<in> set (nodes tree4)" by (rule nodes_self)
  have u: "2 < u_of tree4" "1 < upper_sqrt_of tree4" by (simp_all add: tree4_def)
  from summary_tracks_clusters [OF e c n u(1) _ u(2)]
  show ?thesis using e c n u by simp
qed

subsection \<open>C4: deleting a value that is not stored\<close>

text \<open>
  C4 as stated fails: 6 is not stored in \<open>{0, 5, 15}\<close>, and \<^verbatim>\<open>vEB_delete(6)\<close> removes 5.
\<close>

theorem delete_absent_counterexample:
  "member_after 16 [Insert 0, Insert 5, Insert 15] 6 = Some False \<and>
   member_after 16 [Insert 0, Insert 5, Insert 15] 5 = Some True \<and>
   member_after 16 [Insert 0, Insert 5, Insert 15, Delete 6] 5 = Some False"
  by code_simp

text \<open>
  C4, amended: for every tree left by a careful caller and every \<open>x\<close> in \<open>[0, U)\<close> that is
  not stored, \<^verbatim>\<open>vEB_delete(x)\<close> succeeds; an empty tree stays as it is; a tree with
  \<open>minimum = maximum\<close> becomes empty; a tree with two or more values keeps its minimum
  and maximum and gains no value, but may lose stored values.
\<close>

theorem delete_not_stored:
  assumes "exec U cs = Some V" "careful U cs" "0 \<le> x" "x < U" "x \<notin> stored V"
  shows "\<exists>V'. vEB_delete V x = Some (OK, V') \<and>
    (min_of V = -1 \<longrightarrow> V' = V) \<and>
    (min_of V = max_of V \<longrightarrow> min_of V' = -1 \<and> max_of V' = -1 \<and> stored V' = {}) \<and>
    (min_of V \<noteq> max_of V \<longrightarrow>
       min_of V' = min_of V \<and> max_of V' = max_of V \<and> stored V' \<subseteq> stored V)"
proof -
  obtain S where v: "valid V S" "u_of V = U" using careful_valid [OF assms(1,2)] by auto
  have st: "stored V = S" using v(1) by (rule valid_stored)
  obtain V' where V': "vEB_delete V x = Some (OK, V')"
    "if min_of V = max_of V then V' = set_max (set_min V (-1)) (-1)
     else min_of V' = min_of V \<and> max_of V' = max_of V"
    "stored V' \<subseteq> S"
    using delete_absent [OF v(1), of x] assms(3,4,5) v(2) st by auto
  have a: "V' = V" if "min_of V = -1"
  proof -
    have "max_of V = -1" using that valid_min_empty [OF v(1)] valid_max_empty [OF v(1)] by simp
    then show ?thesis using V'(2) that by (cases V) (simp add: set_min_def set_max_def)
  qed
  have b: "min_of V' = -1 \<and> max_of V' = -1 \<and> stored V' = {}" if "min_of V = max_of V"
    using that V'(2) valid_stored [OF valid_clear [OF v(1) that]] by simp
  have c: "min_of V' = min_of V \<and> max_of V' = max_of V \<and> stored V' \<subseteq> stored V"
    if "min_of V \<noteq> max_of V"
    using that V'(2,3) st by simp
  show ?thesis using V'(1) a b c by blast
qed

theorem delete_not_stored_witness:
  "exec 4 [Insert 1, Insert 3] = Some tree4 \<and> careful 4 [Insert 1, Insert 3] \<and>
   (0::int) \<le> 2 \<and> (2::int) < 4 \<and> 2 \<notin> stored tree4 \<and>
   (\<exists>V'. vEB_delete tree4 2 = Some (OK, V') \<and>
    (min_of tree4 = -1 \<longrightarrow> V' = tree4) \<and>
    (min_of tree4 = max_of tree4 \<longrightarrow> min_of V' = -1 \<and> max_of V' = -1 \<and> stored V' = {}) \<and>
    (min_of tree4 \<noteq> max_of tree4 \<longrightarrow>
       min_of V' = min_of tree4 \<and> max_of V' = max_of tree4 \<and> stored V' \<subseteq> stored tree4))"
proof -
  have e: "exec 4 [Insert 1, Insert 3] = Some tree4" by code_simp
  have c: "careful 4 [Insert 1, Insert 3]" by code_simp
  have "vEB_member tree4 2 = Some False" by code_simp
  then have m: "2 \<notin> stored tree4" by (simp add: stored_def)
  from delete_not_stored [OF e c _ _ m]
  show ?thesis using e c m by simp
qed

subsection \<open>C5: member outside the universe\<close>

text \<open>
  C5 as stated fails: on a fresh tree \<^verbatim>\<open>vEB_member(-1)\<close> is true, since \<open>-1\<close> is the value
  of an empty minimum; and in a tree with \<open>U = 16\<close> the values 20 and \<open>-2\<close> lead to a read
  outside a cluster array, which is undefined behaviour and gives no result.
\<close>

theorem member_out_of_range_counterexample:
  "member_after 16 [] (-1) = Some True \<and> member_after 16 [Insert 3] 20 = None \<and>
   member_after 16 [Insert 3] (-2) = None"
  by code_simp

text \<open>
  C5, amended: \<^verbatim>\<open>vEB_member\<close> validates no bounds. For every reachable tree and every
  \<open>x\<close> outside \<open>[0, U)\<close>: for \<open>x = -1\<close> it returns a result, which is true exactly when the
  root, its \<^verbatim>\<open>cluster[0]\<close>, the \<^verbatim>\<open>cluster[0]\<close> of that, and so on, contain a node with
  minimum or maximum \<open>-1\<close>, so in particular on every empty tree; for every other \<open>x\<close>
  it returns false when \<open>U = 2\<close>, and when \<open>U > 2\<close> it reads a cluster array outside
  its bounds, which is undefined behaviour: no result is defined (\<open>None\<close>).
\<close>

theorem member_out_of_range:
  assumes "exec U cs = Some V" "x < 0 \<or> U \<le> x"
  shows "vEB_member V x =
      (if x = -1 then Some (first_chain_empty V) else if U = 2 then Some False else None) \<and>
    (x = -1 \<and> min_of V = -1 \<longrightarrow> vEB_member V x = Some True)"
proof -
  have w: "well_formed V" "u_of V = U" using wf_exec [OF assms(1)] by simp_all
  have r: "-1 \<le> min_of V" "-1 \<le> max_of V" "min_of V < U" "max_of V < U"
    using wf_range [OF w(1)] w(2) by simp_all
  have u2: "2 \<le> U" using wf_u [OF w(1)] w(2) by simp
  have a: "vEB_member V x =
      (if x = -1 then Some (first_chain_empty V) else if U = 2 then Some False else None)"
  proof (cases "x = -1")
    case True
    then show ?thesis using member_minus_one [OF w(1)] by simp
  next
    case n1: False
    show ?thesis
    proof (cases "U = 2")
      case True
      have "vEB_member V x = Some False"
        using n1 True assms(2) r w(2) by (subst vEB_member.simps) auto
      then show ?thesis using n1 True by simp
    next
      case False
      then have u: "2 < u_of V" using u2 w(2) by simp
      have "vEB_member V x = None"
      proof (cases "x < 0")
        case True
        then have "x < -1" using n1 by simp
        then show ?thesis using member_below_none [OF w(1) u] by simp
      next
        case False
        then have "u_of V \<le> x" using assms(2) w(2) by simp
        then show ?thesis using member_above_range [OF w(1)] u by simp
      qed
      then show ?thesis using n1 False by simp
    qed
  qed
  have d: "vEB_member V x = Some True" if "x = -1 \<and> min_of V = -1"
    using that by (intro member_min_max) simp
  show ?thesis using a d by blast
qed

theorem member_out_of_range_witness:
  "exec 4 [Insert 1, Insert 3] = Some tree4 \<and>
   vEB_member tree4 7 = None \<and> vEB_member tree4 (-3) = None \<and>
   vEB_member tree4 (-1) = Some True \<and>
   exec 4 [Insert 0, Insert 1] =
     Some (vEBNode 4 0 1 (Some (vEBNode 2 0 0 None [] 0 0))
       [vEBNode 2 1 1 None [] 0 0, vEBNode 2 (-1) (-1) None [] 0 0] 2 2) \<and>
   vEB_member (vEBNode 4 0 1 (Some (vEBNode 2 0 0 None [] 0 0))
       [vEBNode 2 1 1 None [] 0 0, vEBNode 2 (-1) (-1) None [] 0 0] 2 2) (-1) = Some False \<and>
   exec 2 [Insert 0] = Some (vEBNode 2 0 0 None [] 0 0) \<and>
   vEB_member (vEBNode 2 0 0 None [] 0 0) 5 = Some False \<and>
   vEB_member (vEBNode 2 0 0 None [] 0 0) (-7) = Some False \<and>
   exec 2 [] = Some (vEBNode 2 (-1) (-1) None [] 0 0) \<and>
   vEB_member (vEBNode 2 (-1) (-1) None [] 0 0) (-1) = Some True"
proof -
  let ?t = "vEBNode 4 0 1 (Some (vEBNode 2 0 0 None [] 0 0))
       [vEBNode 2 1 1 None [] 0 0, vEBNode 2 (-1) (-1) None [] 0 0] 2 2"
  have e: "exec 4 [Insert 1, Insert 3] = Some tree4" by code_simp
  have e1: "exec 4 [Insert 0, Insert 1] = Some ?t" by code_simp
  have e2: "exec 2 [Insert 0] = Some (vEBNode 2 0 0 None [] 0 0)" by code_simp
  have e3: "exec 2 [] = Some (vEBNode 2 (-1) (-1) None [] 0 0)" by code_simp
  have f: "first_chain_empty tree4" by code_simp
  have f1: "\<not> first_chain_empty ?t" by code_simp
  have f3: "first_chain_empty (vEBNode 2 (-1) (-1) None [] 0 0)" by code_simp
  from member_out_of_range [OF e, of 7] member_out_of_range [OF e, of "-3"]
    member_out_of_range [OF e, of "-1"] member_out_of_range [OF e1, of "-1"]
    member_out_of_range [OF e2, of 5] member_out_of_range [OF e2, of "-7"]
    member_out_of_range [OF e3, of "-1"]
  show ?thesis using e e1 e2 e3 f f1 f3 by simp
qed

subsection \<open>C6: inserting twice\<close>

text \<open>
  C6: for every reachable tree and every \<open>x\<close> in \<open>[0, U)\<close>, a second \<^verbatim>\<open>vEB_insert(x)\<close>
  reports no error and leaves the tree of the first: the same results of \<^verbatim>\<open>vEB_member\<close>
  for all values, the same minimum and maximum.
\<close>

theorem insert_idempotent:
  assumes "exec U cs = Some V" "0 \<le> x" "x < U"
  shows "\<exists>V1 V2. vEB_insert V x = Some (OK, V1) \<and> vEB_insert V1 x = Some (OK, V2) \<and>
    V2 = V1 \<and> (\<forall>y. vEB_member V2 y = vEB_member V1 y) \<and>
    min_of V2 = min_of V1 \<and> max_of V2 = max_of V1"
proof -
  have w: "well_formed V" "u_of V = U" using wf_exec [OF assms(1)] by simp_all
  obtain V1 where V1: "vEB_insert V x = Some (OK, V1)" "u_of V1 = u_of V"
    "vEB_member V1 x = Some True"
    using wf_insert [OF w(1), of x] assms(2,3) w(2) by auto
  have "vEB_insert V1 x = Some (OK, V1)"
    using V1(2,3) assms(2,3) w(2) by (subst vEB_insert.simps) simp
  then show ?thesis using V1(1) by simp
qed

theorem insert_idempotent_witness:
  "exec 4 [Insert 1, Insert 3] = Some tree4 \<and> (0::int) \<le> 2 \<and> (2::int) < 4 \<and>
   (\<exists>V1 V2. vEB_insert tree4 2 = Some (OK, V1) \<and> vEB_insert V1 2 = Some (OK, V2) \<and>
    V2 = V1 \<and> (\<forall>y. vEB_member V2 y = vEB_member V1 y) \<and>
    min_of V2 = min_of V1 \<and> max_of V2 = max_of V1)"
proof -
  have e: "exec 4 [Insert 1, Insert 3] = Some tree4" by code_simp
  from insert_idempotent [OF e, of 2] show ?thesis using e by simp
qed

subsection \<open>C7: values out of range\<close>

text \<open>
  C7: for every node and every \<open>x\<close> with \<open>x < 0\<close> or \<open>x \<ge> U\<close>, \<^verbatim>\<open>vEB_insert\<close> and
  \<^verbatim>\<open>vEB_delete\<close> report the value as out of range and leave the whole tree as it was.
\<close>

theorem out_of_range_no_mutation:
  "x < 0 \<or> u_of V \<le> x \<Longrightarrow>
     vEB_insert V x = Some (OutOfRange, V) \<and> vEB_delete V x = Some (OutOfRange, V)"
  by (subst vEB_insert.simps, subst vEB_delete.simps) auto

text \<open>
  The scenario of the specification: on a fresh tree of universe 16, inserting 16 and
  inserting -1 are both refused, and the minimum and maximum stay empty.
\<close>

theorem out_of_range_no_mutation_witness:
  "vEB_create 16 = Some empty16 \<and> min_of empty16 = -1 \<and> max_of empty16 = -1 \<and>
   vEB_insert empty16 16 = Some (OutOfRange, empty16) \<and>
   vEB_insert empty16 (-1) = Some (OutOfRange, empty16) \<and>
   vEB_delete empty16 20 = Some (OutOfRange, empty16)"
proof -
  have c: "vEB_create 16 = Some empty16" by code_simp
  have u: "u_of empty16 = 16" by (simp add: empty16_def Let_def)
  have m: "min_of empty16 = -1 \<and> max_of empty16 = -1" by (simp add: empty16_def Let_def)
  show ?thesis
    using c m out_of_range_no_mutation [of 16 empty16] out_of_range_no_mutation [of "-1" empty16]
      out_of_range_no_mutation [of 20 empty16]
    by (simp add: u)
qed

subsection \<open>C8: minimum and maximum\<close>

text \<open>
  C8 as stated fails on a reachable tree: after the calls below the root has
  \<open>minimum = maximum = 0\<close>, and 5 is stored.
\<close>

theorem min_max_counterexample:
  "min_max_after 16 [Insert 0, Insert 5, Delete 9, Insert 9, Delete 9] = Some (0, 0) \<and>
   member_after 16 [Insert 0, Insert 5, Delete 9, Insert 9, Delete 9] 5 = Some True"
  by code_simp

text \<open>
  C8, amended: in every tree left by a careful caller, for every node: the minimum is
  \<open>-1\<close> if and only if the maximum is \<open>-1\<close>, if and only if the node stores no value; when
  it stores one, \<open>0 \<le> minimum \<le> maximum \<le> U - 1\<close>, and the minimum and the maximum are the
  smallest and the largest stored value.
\<close>

theorem min_max_invariant:
  assumes "exec U cs = Some V" "careful U cs" "N \<in> set (nodes V)"
  shows "(min_of N = -1 \<longleftrightarrow> max_of N = -1) \<and> (min_of N = -1 \<longleftrightarrow> stored N = {}) \<and>
    (stored N \<noteq> {} \<longrightarrow>
       0 \<le> min_of N \<and> min_of N \<le> max_of N \<and> max_of N \<le> u_of N - 1 \<and>
       min_of N \<in> stored N \<and> max_of N \<in> stored N \<and>
       (\<forall>y \<in> stored N. min_of N \<le> y \<and> y \<le> max_of N))"
proof -
  obtain S where "valid V S" using careful_valid [OF assms(1,2)] by auto
  then obtain S' where v: "valid N S'" using valid_nodes assms(3) by blast
  have st: "stored N = S'" using v by (rule valid_stored)
  have sub: "S' \<subseteq> {0..<u_of N}" using v by (rule valid_subset)
  have a: "min_of N = -1 \<longleftrightarrow> max_of N = -1"
    using valid_min_empty [OF v] valid_max_empty [OF v] by simp
  have b: "min_of N = -1 \<longleftrightarrow> stored N = {}" using valid_min_empty [OF v] st by simp
  have c: "0 \<le> min_of N \<and> min_of N \<le> max_of N \<and> max_of N \<le> u_of N - 1 \<and>
       min_of N \<in> stored N \<and> max_of N \<in> stored N \<and>
       (\<forall>y \<in> stored N. min_of N \<le> y \<and> y \<le> max_of N)" if "stored N \<noteq> {}"
  proof -
    have ne: "S' \<noteq> {}" using that st by simp
    have mn: "min_of N \<in> S'" "\<forall>y\<in>S'. min_of N \<le> y"
      using valid_least [OF v] ne by (simp_all add: least_of_def)
    have mx: "max_of N \<in> S'" "\<forall>y\<in>S'. y \<le> max_of N"
      using valid_greatest [OF v] ne by (simp_all add: greatest_of_def)
    have "0 \<le> min_of N" "max_of N < u_of N" "min_of N \<le> max_of N"
      using mn mx sub by auto
    then show ?thesis using mn mx st by simp
  qed
  show ?thesis using a b c by blast
qed

theorem min_max_invariant_witness:
  "exec 4 [Insert 1, Insert 3] = Some tree4 \<and> careful 4 [Insert 1, Insert 3] \<and>
   tree4 \<in> set (nodes tree4) \<and> 3 \<in> stored tree4 \<and> min_of tree4 \<noteq> -1 \<and>
   max_of tree4 \<noteq> -1 \<and> 0 \<le> min_of tree4 \<and> min_of tree4 \<le> max_of tree4 \<and>
   max_of tree4 \<le> u_of tree4 - 1 \<and> min_of tree4 \<in> stored tree4 \<and>
   max_of tree4 \<in> stored tree4 \<and> min_of tree4 \<le> 3 \<and> 3 \<le> max_of tree4"
proof -
  have e: "exec 4 [Insert 1, Insert 3] = Some tree4" by code_simp
  have c: "careful 4 [Insert 1, Insert 3]" by code_simp
  have n: "tree4 \<in> set (nodes tree4)" by (rule nodes_self)
  have "vEB_member tree4 3 = Some True" by code_simp
  then have m: "3 \<in> stored tree4" by (simp add: stored_def tree4_def)
  then have ne: "stored tree4 \<noteq> {}" by auto
  from min_max_invariant [OF e c n] show ?thesis using e c n m ne by blast
qed

subsection \<open>C9: recursion into smaller universes\<close>

text \<open>
  C9 as stated fails. After the three calls below the summary of the root is empty while
  the root stores 1 and 5 as minimum and maximum; \<^verbatim>\<open>vEB_delete(1)\<close> then reads
  \<^verbatim>\<open>summary->min = -1\<close> and \<^verbatim>\<open>cluster[-1]\<close>, which is no child of the node: the call has
  undefined behaviour and no result. On a fresh tree with \<open>U = 16\<close>, \<^verbatim>\<open>vEB_member\<close>,
  \<^verbatim>\<open>vEB_successor\<close> and \<^verbatim>\<open>vEB_predecessor\<close> called with 16 read \<^verbatim>\<open>cluster[4]\<close>, one past
  the array.
\<close>

theorem operation_undefined_counterexample:
  "exec 16 [Insert 1, Insert 5, Delete 6] \<noteq> None \<and>
   exec 16 [Insert 1, Insert 5, Delete 6, Delete 1] = None \<and>
   member_after 16 [] 16 = None \<and> successor_after 16 [] 16 = None \<and>
   predecessor_after 16 [] 16 = None"
  by code_simp

text \<open>
  C9, amended: in every reachable tree and for every node \<open>N\<close> of universe \<open>U\<close> and every
  \<open>x\<close>, each of the five operations makes no recursive call when \<open>U \<le> 2\<close> (and
  \<^verbatim>\<open>vEB_member\<close> makes none when \<open>x\<close> is the minimum or the maximum), and otherwise recurses
  only into the summary of \<open>N\<close> and into one cluster of \<open>N\<close>, whose universes
  (\<open>upper_sqrt\<close> and \<open>lower_sqrt\<close>) are at least 2 and smaller than \<open>U\<close>. The call returns a
  result in these cases: \<^verbatim>\<open>vEB_insert\<close> for every \<open>x\<close>; \<^verbatim>\<open>vEB_member\<close>, \<^verbatim>\<open>vEB_successor\<close>
  and \<^verbatim>\<open>vEB_predecessor\<close> for every \<open>x\<close> in \<open>[0, U)\<close>; \<^verbatim>\<open>vEB_delete\<close> for every \<open>x\<close>
  outside \<open>[0, U)\<close>, and for \<open>x\<close> in \<open>[0, U)\<close> when a careful caller has left the tree.
\<close>

theorem operations_terminate:
  assumes "exec U cs = Some V" "N \<in> set (nodes V)"
  shows "descends vEB_member_rel N x \<and> descends vEB_insert_rel N x \<and>
    descends vEB_delete_rel N x \<and> descends vEB_successor_rel N x \<and>
    descends vEB_predecessor_rel N x \<and>
    (2 < u_of N \<longrightarrow>
       2 \<le> lower_sqrt_of N \<and> lower_sqrt_of N < u_of N \<and>
       2 \<le> upper_sqrt_of N \<and> upper_sqrt_of N < u_of N) \<and>
    (x = min_of N \<or> x = max_of N \<longrightarrow>
       vEB_member N x = Some True \<and> (\<forall>C y. \<not> vEB_member_rel (C, y) (N, x))) \<and>
    (\<exists>st N'. vEB_insert N x = Some (st, N')) \<and>
    (0 \<le> x \<and> x < u_of N \<longrightarrow>
       (\<exists>b. vEB_member N x = Some b) \<and> (\<exists>r. vEB_successor N x = Some r) \<and>
       (\<exists>r. vEB_predecessor N x = Some r)) \<and>
    (x < 0 \<or> u_of N \<le> x \<or> careful U cs \<longrightarrow> (\<exists>st N'. vEB_delete N x = Some (st, N')))"
proof -
  have "well_formed V" using wf_exec [OF assms(1)] by simp
  then have w: "well_formed N" using assms(2) by (rule wf_nodes)
  have q: "2 \<le> lower_sqrt_of N \<and> lower_sqrt_of N < u_of N \<and>
       2 \<le> upper_sqrt_of N \<and> upper_sqrt_of N < u_of N" if u: "2 < u_of N"
  proof -
    let ?lo = "lower_sqrt_of N" and ?up = "upper_sqrt_of N"
    have sq: "2 \<le> ?lo" "2 \<le> ?up" "?lo * ?up = u_of N" using wf_sqrt [OF w u] by simp_all
    have "?lo * 2 \<le> ?lo * ?up" "2 * ?up \<le> ?lo * ?up"
      using sq(1,2) by (simp_all add: mult_left_mono mult_right_mono)
    then have "?lo < u_of N" "?up < u_of N" using sq by linarith+
    then show ?thesis using sq(1,2) by simp
  qed
  have l: "vEB_member N x = Some True \<and> (\<forall>C y. \<not> vEB_member_rel (C, y) (N, x))"
    if m: "x = min_of N \<or> x = max_of N"
  proof
    show "vEB_member N x = Some True" using m by (rule member_min_max)
    show "\<forall>C y. \<not> vEB_member_rel (C, y) (N, x)"
    proof (intro allI notI)
      fix C y
      assume "vEB_member_rel (C, y) (N, x)"
      then show False using m by (cases rule: vEB_member_rel.cases) simp
    qed
  qed
  have i: "\<exists>st N'. vEB_insert N x = Some (st, N')"
  proof (cases "x < 0 \<or> u_of N \<le> x")
    case True
    then show ?thesis using insert_out_of_range by blast
  next
    case False
    then show ?thesis using wf_insert [OF w, of x] by auto
  qed
  have t: "(\<exists>b. vEB_member N x = Some b) \<and> (\<exists>r. vEB_successor N x = Some r) \<and>
       (\<exists>r. vEB_predecessor N x = Some r)"
    if r: "0 \<le> x \<and> x < u_of N"
  proof -
    have r': "0 \<le> x" "x < u_of N" using r by simp_all
    have m: "\<exists>b. vEB_member N x = Some b" using wf_member_total [OF w r'] .
    have s: "\<exists>r. vEB_successor N x = Some r" using wf_successor_total [OF w r'] by blast
    have p: "\<exists>r. vEB_predecessor N x = Some r" using wf_predecessor_total [OF w r'] by blast
    show ?thesis using m s p by blast
  qed
  have d: "\<exists>st N'. vEB_delete N x = Some (st, N')"
    if h: "x < 0 \<or> u_of N \<le> x \<or> careful U cs"
  proof (cases "x < 0 \<or> u_of N \<le> x")
    case True
    then show ?thesis using delete_out_of_range by blast
  next
    case False
    then have r: "0 \<le> x" "x < u_of N" and c: "careful U cs" using h by auto
    obtain S where "valid V S" using careful_valid [OF assms(1) c] by auto
    then obtain S' where v: "valid N S'" using valid_nodes assms(2) by blast
    show ?thesis
    proof (cases "x \<in> S'")
      case True
      then show ?thesis using delete_correct [OF v] by blast
    next
      case False
      then show ?thesis using delete_absent [OF v r] by blast
    qed
  qed
  show ?thesis
    by (intro conjI impI member_descends [OF w] insert_descends [OF w] delete_descends [OF w]
        successor_descends [OF w] predecessor_descends [OF w] i) (use q l t d in blast)+
qed

theorem operations_terminate_witness:
  "exec 4 [Insert 1, Insert 3] = Some tree4 \<and> tree4 \<in> set (nodes tree4) \<and>
   careful 4 [Insert 1, Insert 3] \<and> (0::int) \<le> 2 \<and> 2 < u_of tree4 \<and>
   vEB_member_rel (vEBNode 2 1 1 None [] 0 0, 0) (tree4, 2) \<and>
   vEB_insert_rel (vEBNode 2 1 1 None [] 0 0, 0) (tree4, 2) \<and>
   vEB_successor_rel (vEBNode 2 1 1 None [] 0 0, 0) (tree4, 2) \<and>
   vEB_delete_rel (vEBNode 2 1 1 None [] 0 0, 1) (tree4, 3) \<and>
   vEB_predecessor_rel (vEBNode 2 1 1 None [] 0 0, 1) (tree4, 3) \<and>
   (\<exists>h. ((summary_of tree4 = Some (vEBNode 2 1 1 None [] 0 0) \<and> 0 = h) \<or>
          cluster_at tree4 h = Some (vEBNode 2 1 1 None [] 0 0)) \<and>
        2 \<le> u_of (vEBNode 2 1 1 None [] 0 0) \<and>
        u_of (vEBNode 2 1 1 None [] 0 0) < u_of tree4) \<and>
   descends vEB_insert_rel tree4 2 \<and> descends vEB_successor_rel tree4 2 \<and>
   descends vEB_delete_rel tree4 3 \<and> descends vEB_predecessor_rel tree4 3 \<and>
   2 \<le> lower_sqrt_of tree4 \<and> lower_sqrt_of tree4 < u_of tree4 \<and>
   2 \<le> upper_sqrt_of tree4 \<and> upper_sqrt_of tree4 < u_of tree4 \<and>
   (\<exists>b. vEB_member tree4 2 = Some b) \<and> (\<exists>r. vEB_successor tree4 2 = Some r) \<and>
   (\<exists>r. vEB_predecessor tree4 2 = Some r) \<and>
   (\<exists>st N'. vEB_insert tree4 2 = Some (st, N')) \<and>
   (\<exists>st N'. vEB_delete tree4 2 = Some (st, N')) \<and>
   3 = max_of tree4 \<and> vEB_member tree4 3 = Some True \<and>
   (\<forall>C y. \<not> vEB_member_rel (C, y) (tree4, 3)) \<and>
   u_of tree4 \<le> 9 \<and> (\<exists>st N'. vEB_insert tree4 9 = Some (st, N')) \<and>
   (\<exists>st N'. vEB_delete tree4 9 = Some (st, N'))"
proof -
  let ?c = "vEBNode 2 1 1 None [] 0 0"
  have e: "exec 4 [Insert 1, Insert 3] = Some tree4" by code_simp
  have n: "tree4 \<in> set (nodes tree4)" by (rule nodes_self)
  have c: "careful 4 [Insert 1, Insert 3]" by code_simp
  have u: "2 < u_of tree4" "u_of tree4 \<le> 9" "3 = max_of tree4" by (simp_all add: tree4_def)
  have f: "min_of tree4 = 1" "max_of tree4 = 3" "u_of tree4 = 4"
    "summary_of tree4 = Some ?c" by (simp_all add: tree4_def)
  have p2: "high tree4 2 = Some 1" "low tree4 2 = Some 0" by code_simp+
  have p3: "high tree4 3 = Some 1" "low tree4 3 = Some 1" by code_simp+
  have p4: "cluster_at tree4 1 = Some ?c" by code_simp
  have m2: "vEB_member tree4 2 = Some False" by code_simp
  have km: "vEB_member_rel (?c, 0) (tree4, 2)"
    by (rule vEB_member_rel.intros [OF _ _ p2 p4]) (simp_all add: f)
  have ki: "vEB_insert_rel (?c, 0) (tree4, 2)"
    by (rule vEB_insert_rel.intros(2) [where ?x2.0 = False and xa = "(2, tree4)",
          OF _ m2 _ _ _ _ _ p2 p4])
       (simp_all add: f)
  have ks: "vEB_successor_rel (?c, 0) (tree4, 2)"
    by (rule vEB_successor_rel.intros(1) [where xa = 1, OF _ _ p2 p4]) (simp_all add: f vEB_max_def)
  have kd: "vEB_delete_rel (?c, 1) (tree4, 3)"
    by (rule vEB_delete_rel.intros(1) [where a = "(3, tree4)", OF _ _ _ _ _ p3 p4])
       (simp_all add: f)
  have kp: "vEB_predecessor_rel (?c, 1) (tree4, 3)"
    by (rule vEB_predecessor_rel.intros(2) [where xa = 1, OF _ _ p3 p4]) (simp_all add: f vEB_min_def)
  note t2 = operations_terminate [OF e n, of 2]
  note t3 = operations_terminate [OF e n, of 3]
  note t9 = operations_terminate [OF e n, of 9]
  from t2 have "descends vEB_member_rel tree4 2" by (rule conjunct1)
  then obtain h where h: "\<And>C y. vEB_member_rel (C, y) (tree4, 2) \<Longrightarrow>
        2 < u_of tree4 \<and> ((summary_of tree4 = Some C \<and> y = h) \<or> cluster_at tree4 h = Some C) \<and>
        2 \<le> u_of C \<and> u_of C < u_of tree4"
    unfolding descends_def by blast
  have d: "\<exists>h. ((summary_of tree4 = Some ?c \<and> 0 = h) \<or> cluster_at tree4 h = Some ?c) \<and>
        2 \<le> u_of ?c \<and> u_of ?c < u_of tree4"
    using h [OF km] by blast
  have d2: "descends vEB_insert_rel tree4 2" "descends vEB_successor_rel tree4 2"
    using t2 by simp_all
  have d3: "descends vEB_delete_rel tree4 3" "descends vEB_predecessor_rel tree4 3"
    using t3 by simp_all
  have q: "2 \<le> lower_sqrt_of tree4" "lower_sqrt_of tree4 < u_of tree4"
   "2 \<le> upper_sqrt_of tree4" "upper_sqrt_of tree4 < u_of tree4"
    using t2 u(1) by simp_all
  have r2: "\<exists>b. vEB_member tree4 2 = Some b" "\<exists>r. vEB_successor tree4 2 = Some r"
   "\<exists>r. vEB_predecessor tree4 2 = Some r"
   "\<exists>st N'. vEB_insert tree4 2 = Some (st, N')"
   "\<exists>st N'. vEB_delete tree4 2 = Some (st, N')"
    using t2 c u(1) by simp_all
  have r3: "vEB_member tree4 3 = Some True" "\<forall>C y. \<not> vEB_member_rel (C, y) (tree4, 3)"
    using t3 u(3) by simp_all
  have r9: "\<exists>st N'. vEB_insert tree4 9 = Some (st, N')"
   "\<exists>st N'. vEB_delete tree4 9 = Some (st, N')"
    using t9 u(2) by simp_all
  show ?thesis
    by (intro conjI e n c u km ki ks kd kp d d2 d3 q r2 r3 r9) simp
qed

subsection \<open>C10: deleting from a tree with one value\<close>

text \<open>
  C10: for every node with \<open>minimum = maximum = e\<close> and every \<open>x\<close> in \<open>[0, U)\<close>, equal to
  \<open>e\<close> or not, \<^verbatim>\<open>vEB_delete(x)\<close> sets the minimum and the maximum to \<open>-1\<close> and changes
  nothing else; when a careful caller has left the tree, it then stores no value.
\<close>

theorem single_element_delete:
  assumes "min_of V = e" "max_of V = e" "0 \<le> x" "x < u_of V"
  shows "\<exists>V'. vEB_delete V x = Some (OK, V') \<and> min_of V' = -1 \<and> max_of V' = -1 \<and>
    summary_of V' = summary_of V \<and> cluster_of V' = cluster_of V \<and>
    (\<forall>U cs. exec U cs = Some V \<and> careful U cs \<longrightarrow> stored V' = {})"
proof -
  let ?V' = "set_max (set_min V (-1)) (-1)"
  have eq: "min_of V = max_of V" using assms(1,2) by simp
  have d: "vEB_delete V x = Some (OK, ?V')"
    using assms(3,4) eq by (subst vEB_delete.simps) simp
  have "stored ?V' = {}" if h: "exec U cs = Some V" "careful U cs" for U cs
  proof -
    obtain S where S: "valid V S" using careful_valid [OF h] by auto
    from valid_stored [OF valid_clear [OF S eq]] show ?thesis .
  qed
  then show ?thesis using d by auto
qed

theorem single_element_delete_witness:
  "min_of tree4_single = 3 \<and> max_of tree4_single = 3 \<and> (0::int) \<le> 1 \<and> 1 < u_of tree4_single \<and>
   exec 4 [Insert 3] = Some tree4_single \<and> careful 4 [Insert 3] \<and>
   vEB_member tree4_single 3 = Some True \<and>
   (\<exists>V'. vEB_delete tree4_single 1 = Some (OK, V') \<and> min_of V' = -1 \<and> max_of V' = -1 \<and>
      summary_of V' = summary_of tree4_single \<and> cluster_of V' = cluster_of tree4_single \<and>
      stored V' = {})"
proof -
  have f: "min_of tree4_single = 3" "max_of tree4_single = 3" "1 < u_of tree4_single"
    by (simp_all add: tree4_single_def)
  have e: "exec 4 [Insert 3] = Some tree4_single" by code_simp
  have c: "careful 4 [Insert 3]" by code_simp
  have m: "vEB_member tree4_single 3 = Some True" by code_simp
  from single_element_delete [OF f(1,2) _ f(3)]
  obtain V' where V': "vEB_delete tree4_single 1 = Some (OK, V')" "min_of V' = -1"
    "max_of V' = -1" "summary_of V' = summary_of tree4_single"
    "cluster_of V' = cluster_of tree4_single"
    "\<forall>U cs. exec U cs = Some tree4_single \<and> careful U cs \<longrightarrow> stored V' = {}"
    by auto
  have "stored V' = {}" using V'(6) e c by blast
  then show ?thesis using f e c m V'(1-5) by simp
qed

end
